theory Spec2Isabelle
  imports Main
begin

section \<open>Data model of the injector\<close>

text \<open>
  The resolver is the \<open>Injector\<close> class with its two strategies
  (\<open>_SyncInjectorStrategy\<close>, \<open>_AsyncInjectorStrategy\<close>) and the function
  \<open>_flattenBindings\<close>. A \<open>Key\<close> pairs a token with its dense id; the token of the
  \<open>Injector\<close> class itself is \<open>InjectorType\<close>.
\<close>

datatype token = InjectorType | Tok nat

record key =
  kid :: nat
  ktoken :: token

text \<open>
  The values a caller or a factory can hold: \<open>null\<close>, an object, an injector, a
  future, or the closure returned for a lazy dependency (it remembers the injector, the
  key and the mode). The private sentinel \<open>_constructing\<close> and the private wrapper
  \<open>_Waiting\<close> are not among them: they exist only in the instance array.
\<close>

datatype val = Null | Obj nat | InjectorRef nat | FutureRef nat | LazyRef nat key bool

datatype inst = Constructing | Waiting nat | Value val

text \<open>
  Modelled from the spec: the exception classes (module \<open>./exceptions\<close>) are not part of
  the sources. Every error of a lookup carries the chain of keys it was annotated with
  (\<open>addKey\<close>); \<open>InstantiationError\<close> also carries the failure of the factory.
\<close>

datatype error =
    NoProviderError "key list"
  | AsyncBindingError "key list"
  | CyclicDependencyError "key list"
  | InstantiationError string "key list"

fun addKey :: "error \<Rightarrow> key \<Rightarrow> error" where
  "addKey (NoProviderError ks) k = NoProviderError (ks @ [k])"
| "addKey (AsyncBindingError ks) k = AsyncBindingError (ks @ [k])"
| "addKey (CyclicDependencyError ks) k = CyclicDependencyError (ks @ [k])"
| "addKey (InstantiationError c ks) k = InstantiationError c (ks @ [k])"

record dependency =
  dkey :: key
  asFuture :: bool
  lazy :: bool

text \<open>
  A factory receives the resolved dependencies and either throws (\<open>Inl\<close>) or returns a
  value. Factories such as \<open>() => new Logger()\<close> allocate: the first argument is the
  number of factory invocations made so far, from which a factory can build a fresh object.
\<close>

record binding =
  bkey :: key
  factory :: "nat \<Rightarrow> inst list \<Rightarrow> string + val"
  dependencies :: "dependency list"
  providedAsFuture :: bool

record injector =
  bindings :: "binding option list"
  instances :: "inst list"
  parent :: "nat option"

datatype fstate = Pending | Completed inst | Failed error

datatype phase = AwaitDeps | AwaitResult nat | Cache inst | Done

text \<open>
  One task stands for the chain of callbacks that \<open>_AsyncInjectorStrategy.instantiate\<close>
  attaches to the joined dependencies: error handler, \<open>_findOrCreate\<close>,
  \<open>_cacheInstance\<close>. Its phase says which callback is next: the one after the
  dependencies, the one after a future that \<open>_findOrCreate\<close> returned, or
  \<open>_cacheInstance\<close> with the instance it is to store.
\<close>

record task =
  t_injector :: nat
  t_key :: key
  t_binding :: binding
  t_deps :: "val list"
  t_future :: nat
  t_phase :: phase

text \<open>
  The whole store: injectors by address, futures by handle, the pending callback chains,
  and the log of factory invocations (injector address and key id of each).
\<close>

record world =
  injectors :: "nat \<Rightarrow> injector"
  futures :: "fstate list"
  tasks :: "task list"
  calls :: "(nat \<times> nat) list"
  allocated :: nat

section \<open>Instance array and binding table\<close>

definition isPresent :: "val \<Rightarrow> bool" where
  "isPresent v = (v \<noteq> Null)"

definition getInstance :: "world \<Rightarrow> nat \<Rightarrow> key \<Rightarrow> inst" where
  "getInstance s i k =
     (if length (instances (injectors s i)) \<le> kid k then Value Null
      else instances (injectors s i) ! kid k)"

text \<open>
  \<open>ListWrapper.set\<close> is \<open>list[index] = value\<close>; written past the end, a JavaScript
  array grows and the holes read as absent.
\<close>

definition list_set :: "inst list \<Rightarrow> nat \<Rightarrow> inst \<Rightarrow> inst list" where
  "list_set xs n x =
     (if n < length xs then xs[n := x]
      else xs @ replicate (n - length xs) (Value Null) @ [x])"

definition setInstance :: "nat \<Rightarrow> key \<Rightarrow> inst \<Rightarrow> world \<Rightarrow> world" where
  "setInstance i k x s =
     s\<lparr>injectors := (injectors s)
          (i := (injectors s i)\<lparr>instances := list_set (instances (injectors s i)) (kid k) x\<rparr>)\<rparr>"

definition getBinding :: "world \<Rightarrow> nat \<Rightarrow> key \<Rightarrow> binding option" where
  "getBinding s i k =
     (if length (bindings (injectors s i)) \<le> kid k then None
      else bindings (injectors s i) ! kid k)"

definition markAsConstructing :: "nat \<Rightarrow> key \<Rightarrow> world \<Rightarrow> world" where
  "markAsConstructing i k s = setInstance i k Constructing s"

definition clear :: "nat \<Rightarrow> key \<Rightarrow> world \<Rightarrow> world" where
  "clear i k s = setInstance i k (Value Null) s"

text \<open>
  Modelled from the spec: \<open>FutureWrapper\<close> (module \<open>facade/async\<close>) is not part of the
  sources. \<open>FutureWrapper.value\<close> makes a new, already complete computation wrapping
  the value; given a computation, it is that computation.
\<close>

definition future_value :: "val \<Rightarrow> world \<Rightarrow> val \<times> world" where
  "future_value v s =
     (case v of
        FutureRef g \<Rightarrow> (FutureRef g, s)
      | _ \<Rightarrow>
          (FutureRef (length (futures s)),
           s\<lparr>futures := futures s @ [Completed (Value v)]\<rparr>))"

section \<open>The two strategies\<close>

type_synonym 'a outcome = "((error + 'a) \<times> world) option"

type_synonym lookup = "nat \<Rightarrow> key \<Rightarrow> bool \<Rightarrow> bool \<Rightarrow> world \<Rightarrow> val outcome"

definition sync_readFromCache :: "nat \<Rightarrow> key \<Rightarrow> world \<Rightarrow> error + val" where
  "sync_readFromCache i k s =
     (if ktoken k = InjectorType then Inr (InjectorRef i)
      else case getInstance s i k of
             Constructing \<Rightarrow> Inl (CyclicDependencyError [k])
           | Waiting f \<Rightarrow> Inr Null
           | Value v \<Rightarrow> Inr v)"

definition async_readFromCache :: "nat \<Rightarrow> key \<Rightarrow> world \<Rightarrow> (error + val) \<times> world" where
  "async_readFromCache i k s =
     (if ktoken k = InjectorType
      then (case future_value (InjectorRef i) s of (f, s') \<Rightarrow> (Inr f, s'))
      else case getInstance s i k of
             Constructing \<Rightarrow> (Inl (CyclicDependencyError [k]), s)
           | Waiting f \<Rightarrow> (Inr (FutureRef f), s)
           | Value v \<Rightarrow>
               (if isPresent v then (case future_value v s of (f, s') \<Rightarrow> (Inr f, s'))
                else (Inr Null, s)))"

text \<open>
  \<open>getDependencies\<close> is the \<open>ListWrapper.map\<close> of \<open>_resolveDependencies\<close>: the
  dependencies are looked up from left to right, and the first exception ends the map.
  The lookup itself is the parameter \<open>get\<close>.
\<close>

fun getDependencies ::
  "lookup \<Rightarrow> nat \<Rightarrow> bool \<Rightarrow> dependency list \<Rightarrow> world \<Rightarrow> (val list) outcome" where
  "getDependencies get i forceAsync [] s = Some (Inr [], s)"
| "getDependencies get i forceAsync (d # ds) s =
     (case get i (dkey d) (forceAsync \<or> asFuture d) (lazy d) s of
        None \<Rightarrow> None
      | Some (Inl e, s1) \<Rightarrow> Some (Inl e, s1)
      | Some (Inr v, s1) \<Rightarrow>
          (case getDependencies get i forceAsync ds s1 of
             None \<Rightarrow> None
           | Some (Inl e, s2) \<Rightarrow> Some (Inl e, s2)
           | Some (Inr vs, s2) \<Rightarrow> Some (Inr (v # vs), s2)))"

definition resolveDependencies ::
  "lookup \<Rightarrow> nat \<Rightarrow> key \<Rightarrow> binding \<Rightarrow> bool \<Rightarrow> world \<Rightarrow> (val list) outcome" where
  "resolveDependencies get i k b forceAsync s =
     (case getDependencies get i forceAsync (dependencies b) s of
        None \<Rightarrow> None
      | Some (Inl e, s1) \<Rightarrow> Some (Inl (addKey e k), clear i k s1)
      | Some (Inr vs, s1) \<Rightarrow> Some (Inr vs, s1))"

definition createInstance :: "nat \<Rightarrow> key \<Rightarrow> binding \<Rightarrow> val list \<Rightarrow> world \<Rightarrow> (error + val) \<times> world" where
  "createInstance i k b deps s =
     (let s1 = s\<lparr>calls := calls s @ [(i, kid k)]\<rparr>
      in case factory b (length (calls s)) (map Value deps) of
           Inr v \<Rightarrow> (Inr v, setInstance i k (Value v) s1)
         | Inl c \<Rightarrow> (Inl (InstantiationError c [k]), clear i k s1))"

definition sync_instantiate :: "lookup \<Rightarrow> nat \<Rightarrow> key \<Rightarrow> world \<Rightarrow> val outcome" where
  "sync_instantiate get i k s =
     (case getBinding s i k of
        None \<Rightarrow> Some (Inr Null, s)
      | Some b \<Rightarrow>
          if providedAsFuture b then Some (Inl (AsyncBindingError [k]), s)
          else (case resolveDependencies get i k b False (markAsConstructing i k s) of
                  None \<Rightarrow> None
                | Some (Inl e, s2) \<Rightarrow> Some (Inl e, s2)
                | Some (Inr deps, s2) \<Rightarrow> Some (createInstance i k b deps s2)))"

definition async_instantiate :: "lookup \<Rightarrow> nat \<Rightarrow> key \<Rightarrow> world \<Rightarrow> val outcome" where
  "async_instantiate get i k s =
     (case getBinding s i k of
        None \<Rightarrow> Some (Inr Null, s)
      | Some b \<Rightarrow>
          (case resolveDependencies get i k b True (markAsConstructing i k s) of
             None \<Rightarrow> None
           | Some (Inl e, s2) \<Rightarrow> Some (Inl e, s2)
           | Some (Inr deps, s2) \<Rightarrow>
               (let f = length (futures s2);
                    t = \<lparr>t_injector = i, t_key = k, t_binding = b, t_deps = deps,
                         t_future = f, t_phase = AwaitDeps\<rparr>;
                    s3 = s2\<lparr>futures := futures s2 @ [Pending], tasks := tasks s2 @ [t]\<rparr>
                in Some (Inr (FutureRef f), setInstance i k (Waiting f) s3))))"

section \<open>Lookup\<close>

text \<open>
  \<open>var strategy = returnFuture ? this._asyncStrategy : this._syncStrategy\<close>: the two
  operations of the chosen strategy.
\<close>

definition readFromCache :: "bool \<Rightarrow> nat \<Rightarrow> key \<Rightarrow> world \<Rightarrow> (error + val) \<times> world" where
  "readFromCache returnFuture i k s =
     (if returnFuture then async_readFromCache i k s else (sync_readFromCache i k s, s))"

definition instantiate :: "lookup \<Rightarrow> bool \<Rightarrow> nat \<Rightarrow> key \<Rightarrow> world \<Rightarrow> val outcome" where
  "instantiate get returnFuture i k s =
     (if returnFuture then async_instantiate get i k s else sync_instantiate get i k s)"

definition getByKey_body :: "lookup \<Rightarrow> lookup" where
  "getByKey_body get i k returnFuture returnLazy s =
     (if returnLazy then Some (Inr (LazyRef i k returnFuture), s)
      else
        case readFromCache returnFuture i k s of
          (Inl e, s1) \<Rightarrow> Some (Inl e, s1)
        | (Inr v, s1) \<Rightarrow>
            if isPresent v then Some (Inr v, s1)
            else
              (case instantiate get returnFuture i k s1 of
                 None \<Rightarrow> None
               | Some (Inl e, s2) \<Rightarrow> Some (Inl e, s2)
               | Some (Inr v2, s2) \<Rightarrow>
                   if isPresent v2 then Some (Inr v2, s2)
                   else
                     (case parent (injectors s2 i) of
                        Some p \<Rightarrow> get p k returnFuture returnLazy s2
                      | None \<Rightarrow> Some (Inl (NoProviderError [k]), s2))))"

text \<open>
  \<open>_getByKey\<close> calls itself through the strategies and through the parent. The first
  argument bounds the depth of these calls; \<open>None\<close> means the bound was reached.
\<close>

primrec getByKey :: "nat \<Rightarrow> lookup" where
  "getByKey 0 = (\<lambda>i k returnFuture returnLazy s. None)"
| "getByKey (Suc n) = getByKey_body (getByKey n)"

text \<open>
  \<open>get\<close> and \<open>asyncGet\<close> take the key that \<open>Key.get(token)\<close> returns (the registry
  is not part of the sources).
\<close>

definition get :: "nat \<Rightarrow> nat \<Rightarrow> key \<Rightarrow> world \<Rightarrow> val outcome" where
  "get n i k s = getByKey n i k False False s"

definition asyncGet :: "nat \<Rightarrow> nat \<Rightarrow> key \<Rightarrow> world \<Rightarrow> val outcome" where
  "asyncGet n i k s = getByKey n i k True False s"

section \<open>The callbacks of an asynchronous construction\<close>

text \<open>
  Modelled from the spec: \<open>FutureWrapper.wait\<close>, \<open>catchError\<close> and \<open>then\<close> (module
  \<open>facade/async\<close>) are not part of the sources. The joined computation completes once
  every dependency computation has completed, and fails with the error of the first
  failed dependency; a dependency that is not a computation (a lazy closure) counts as
  complete. A callback runs in a later turn of the scheduler than the call that
  attached it.
\<close>

definition dep_state :: "world \<Rightarrow> val \<Rightarrow> fstate" where
  "dep_state s v =
     (case v of
        FutureRef f \<Rightarrow> (if f < length (futures s) then futures s ! f else Pending)
      | _ \<Rightarrow> Completed (Value v))"

fun first_failed :: "fstate list \<Rightarrow> error option" where
  "first_failed [] = None"
| "first_failed (Failed e # xs) = Some e"
| "first_failed (x # xs) = first_failed xs"

fun settled_values :: "fstate list \<Rightarrow> inst list option" where
  "settled_values [] = Some []"
| "settled_values (Completed x # xs) =
     (case settled_values xs of None \<Rightarrow> None | Some ys \<Rightarrow> Some (x # ys))"
| "settled_values (x # xs) = None"

definition settle :: "nat \<Rightarrow> fstate \<Rightarrow> world \<Rightarrow> world" where
  "settle f st s = s\<lparr>futures := (futures s)[f := st]\<rparr>"

definition set_phase :: "nat \<Rightarrow> phase \<Rightarrow> world \<Rightarrow> world" where
  "set_phase j ph s = s\<lparr>tasks := (tasks s)[j := (tasks s ! j)\<lparr>t_phase := ph\<rparr>]\<rparr>"

definition errorHandler :: "key \<Rightarrow> error \<Rightarrow> error" where
  "errorHandler k e = addKey e k"

definition findOrCreate ::
  "nat \<Rightarrow> key \<Rightarrow> binding \<Rightarrow> inst list \<Rightarrow> world \<Rightarrow> (error + inst) \<times> world" where
  "findOrCreate i k b deps s =
     (case getInstance s i k of
        Waiting f \<Rightarrow>
          (let s1 = s\<lparr>calls := calls s @ [(i, kid k)]\<rparr>
           in case factory b (length (calls s)) deps of
                Inr v \<Rightarrow> (Inr (Value v), s1)
              | Inl c \<Rightarrow> (Inl (InstantiationError c [k]), clear i k s1))
      | instance \<Rightarrow> (Inr instance, s))"

definition cacheInstance :: "nat \<Rightarrow> key \<Rightarrow> inst \<Rightarrow> world \<Rightarrow> world" where
  "cacheInstance i k instance s = setInstance i k instance s"

text \<open>
  A callback of the chain that returns a computation makes the chain wait for that
  computation: the next callback gets what it settles to, and its failure is the failure
  of the chain. \<open>after_result\<close> is the phase a task enters with the result \<open>x\<close> of
  \<open>_findOrCreate\<close>.
\<close>

definition after_result :: "inst \<Rightarrow> phase" where
  "after_result x = (case x of Value (FutureRef g) \<Rightarrow> AwaitResult g | _ \<Rightarrow> Cache x)"

text \<open>
  One turn of the scheduler for the task at position \<open>j\<close>: the next callback of its
  chain runs if it can, otherwise nothing happens.
\<close>

definition step_task :: "nat \<Rightarrow> world \<Rightarrow> world" where
  "step_task j s =
     (if length (tasks s) \<le> j then s
      else
        let t = tasks s ! j; i = t_injector t; k = t_key t; f = t_future t
        in case t_phase t of
             Done \<Rightarrow> s
           | Cache x \<Rightarrow> set_phase j Done (settle f (Completed x) (cacheInstance i k x s))
           | AwaitResult g \<Rightarrow>
               (case dep_state s (FutureRef g) of
                  Pending \<Rightarrow> s
                | Failed e \<Rightarrow> set_phase j Done (settle f (Failed e) s)
                | Completed y \<Rightarrow> set_phase j (after_result y) s)
           | AwaitDeps \<Rightarrow>
               (let sts = map (dep_state s) (t_deps t)
                in case first_failed sts of
                     Some e \<Rightarrow> set_phase j Done (settle f (Failed (errorHandler k e)) s)
                   | None \<Rightarrow>
                       (case settled_values sts of
                          None \<Rightarrow> s
                        | Some deps \<Rightarrow>
                            (case findOrCreate i k (t_binding t) deps s of
                               (Inl e, s1) \<Rightarrow> set_phase j Done (settle f (Failed e) s1)
                             | (Inr x, s1) \<Rightarrow> set_phase j (after_result x) s1))))"

text \<open>
  What can happen between two calls of the injector: a callback of a task runs, or a
  computation that no task owns (one that a factory has handed out) settles.
\<close>

datatype event = Callback nat | Settles nat fstate

definition settle_external :: "nat \<Rightarrow> fstate \<Rightarrow> world \<Rightarrow> world" where
  "settle_external g st s =
     (if g < length (futures s) \<and> futures s ! g = Pending \<and> st \<noteq> Pending \<and>
         (\<forall>t \<in> set (tasks s). t_future t \<noteq> g)
      then settle g st s else s)"

fun fire :: "event \<Rightarrow> world \<Rightarrow> world" where
  "fire (Callback j) s = step_task j s"
| "fire (Settles g st) s = settle_external g st s"

fun run :: "event list \<Rightarrow> world \<Rightarrow> world" where
  "run [] s = s"
| "run (e # es) s = run es (fire e s)"

section \<open>Building an injector\<close>

text \<open>
  The raw bindings handed to the constructor: a \<open>Binding\<close>, a \<open>Type\<close>, a nested
  list, an unfinished \<open>BindingBuilder\<close> (it knows its token), or anything else.
\<close>

datatype raw = RBinding binding | RType nat | RList "raw list" | RBuilder token | ROther nat

datatype invalid = InvalidBindingError_token token | InvalidBindingError_value nat

text \<open>
  \<open>MapWrapper.set\<close> on the insertion-ordered map \<open>res\<close>: an existing key keeps its
  place and takes the new value, a new key goes last.
\<close>

fun map_set :: "(nat \<times> binding) list \<Rightarrow> nat \<Rightarrow> binding \<Rightarrow> (nat \<times> binding) list" where
  "map_set [] k v = [(k, v)]"
| "map_set (p # ps) k v = (if fst p = k then (k, v) # ps else p # map_set ps k v)"

text \<open>
  \<open>toClass\<close> stands for \<open>bind(b).toClass(b)\<close> (module \<open>./binding\<close>, not part of the
  sources): the binding a bare type expands to.
\<close>

fun flattenBindings ::
      "(nat \<Rightarrow> binding) \<Rightarrow> raw list \<Rightarrow> (nat \<times> binding) list \<Rightarrow> invalid + (nat \<times> binding) list"
  and flattenBinding ::
      "(nat \<Rightarrow> binding) \<Rightarrow> raw \<Rightarrow> (nat \<times> binding) list \<Rightarrow> invalid + (nat \<times> binding) list"
where
  "flattenBindings toClass [] res = Inr res"
| "flattenBindings toClass (b # bs) res =
     (case flattenBinding toClass b res of
        Inl e \<Rightarrow> Inl e
      | Inr res1 \<Rightarrow> flattenBindings toClass bs res1)"
| "flattenBinding toClass (RBinding b) res = Inr (map_set res (kid (bkey b)) b)"
| "flattenBinding toClass (RType t) res =
     Inr (map_set res (kid (bkey (toClass t))) (toClass t))"
| "flattenBinding toClass (RList bs) res = flattenBindings toClass bs res"
| "flattenBinding toClass (RBuilder tok) res = Inl (InvalidBindingError_token tok)"
| "flattenBinding toClass (ROther x) res = Inl (InvalidBindingError_value x)"

definition binding_set :: "binding option list \<Rightarrow> nat \<Rightarrow> binding \<Rightarrow> binding option list" where
  "binding_set xs n b =
     (if n < length xs then xs[n := Some b]
      else xs @ replicate (n - length xs) None @ [Some b])"

definition createListOfBindings :: "nat \<Rightarrow> (nat \<times> binding) list \<Rightarrow> binding option list" where
  "createListOfBindings numberOfKeys flatten =
     foldl (\<lambda>bs (keyId, v). binding_set bs keyId v) (replicate (numberOfKeys + 1) None) flatten"

definition createInstances :: "nat \<Rightarrow> inst list" where
  "createInstances numberOfKeys = replicate (numberOfKeys + 1) (Value Null)"

text \<open>
  The constructor; \<open>numberOfKeys\<close> is \<open>Key.numberOfKeys()\<close> at that moment. The new
  injector gets the next free address, which is returned.
\<close>

definition new_Injector ::
  "(nat \<Rightarrow> binding) \<Rightarrow> nat \<Rightarrow> raw list \<Rightarrow> nat option \<Rightarrow> world \<Rightarrow> invalid + (nat \<times> world)" where
  "new_Injector toClass numberOfKeys rawBindings par s =
     (case flattenBindings toClass rawBindings [] of
        Inl e \<Rightarrow> Inl e
      | Inr flatten \<Rightarrow>
          Inr (allocated s,
               s\<lparr>injectors := (injectors s)
                     (allocated s :=
                        \<lparr>bindings = createListOfBindings numberOfKeys flatten,
                         instances = createInstances numberOfKeys,
                         parent = par\<rparr>),
                  allocated := Suc (allocated s)\<rparr>))"

definition createChild ::
  "(nat \<Rightarrow> binding) \<Rightarrow> nat \<Rightarrow> nat \<Rightarrow> raw list \<Rightarrow> world \<Rightarrow> invalid + (nat \<times> world)" where
  "createChild toClass numberOfKeys i rawBindings s =
     new_Injector toClass numberOfKeys rawBindings (Some i) s"

definition no_injector :: injector where
  "no_injector = \<lparr>bindings = [], instances = [], parent = None\<rparr>"

definition empty_world :: world where
  "empty_world =
     \<lparr>injectors = (\<lambda>_. no_injector), futures = [], tasks = [], calls = [], allocated = 0\<rparr>"

section \<open>Reference notions used in the properties\<close>



section \<open>Example configurations\<close>

definition ex_key :: "nat \<Rightarrow> key" where
  "ex_key n = \<lparr>kid = n, ktoken = Tok n\<rparr>"

definition ex_dep :: "nat \<Rightarrow> dependency" where
  "ex_dep n = \<lparr>dkey = ex_key n, asFuture = False, lazy = False\<rparr>"

definition ex_lazy_dep :: "nat \<Rightarrow> dependency" where
  "ex_lazy_dep n = \<lparr>dkey = ex_key n, asFuture = False, lazy = True\<rparr>"

definition ex_binding :: "nat \<Rightarrow> dependency list \<Rightarrow> (nat \<Rightarrow> inst list \<Rightarrow> string + val) \<Rightarrow> binding" where
  "ex_binding n ds f =
     \<lparr>bkey = ex_key n, factory = f, dependencies = ds, providedAsFuture = False\<rparr>"

definition ex_async_binding :: "nat \<Rightarrow> binding" where
  "ex_async_binding n =
     \<lparr>bkey = ex_key n, factory = (\<lambda>c ds. Inr (FutureRef 0)), dependencies = [],
      providedAsFuture = True\<rparr>"

text \<open>Three factories: \<open>() => new Object()\<close>, \<open>() => null\<close>, and one that throws.\<close>

definition ex_new :: "nat \<Rightarrow> inst list \<Rightarrow> string + val" where
  "ex_new c ds = Inr (Obj c)"

definition ex_null :: "nat \<Rightarrow> inst list \<Rightarrow> string + val" where
  "ex_null c ds = Inr Null"

definition ex_throw :: "nat \<Rightarrow> inst list \<Rightarrow> string + val" where
  "ex_throw c ds = Inl ''boom''"

text \<open>An injector over the key ids 0 to 3 with the given bindings and parent.\<close>

definition ex_injector :: "binding list \<Rightarrow> nat option \<Rightarrow> injector" where
  "ex_injector bs par =
     \<lparr>bindings = createListOfBindings 3 (map (\<lambda>b. (kid (bkey b), b)) bs),
      instances = createInstances 3, parent = par\<rparr>"

definition ex_world :: "injector list \<Rightarrow> world" where
  "ex_world js =
     \<lparr>injectors = (\<lambda>i. if i < length js then js ! i else no_injector),
      futures = [], tasks = [], calls = [], allocated = length js\<rparr>"

text \<open>
  Observations for examples: what a call returned, the slot of a key afterwards and the
  factory invocations so far; and a second call made in the store the first one left.
\<close>

definition observe ::
  "val outcome \<Rightarrow> nat \<Rightarrow> key \<Rightarrow> ((error + val) \<times> inst \<times> (nat \<times> nat) list) option" where
  "observe r i k = map_option (\<lambda>(x, s). (x, getInstance s i k, calls s)) r"

definition and_then :: "val outcome \<Rightarrow> (world \<Rightarrow> val outcome) \<Rightarrow> val outcome" where
  "and_then r f = (case r of None \<Rightarrow> None | Some (x, s) \<Rightarrow> f s)"

text \<open>
  A root that binds key 1 to a fresh object, and a child that rebinds key 1 to a
  factory returning \<open>null\<close>.
\<close>

definition ex_null_child :: world where
  "ex_null_child =
     ex_world [ex_injector [ex_binding 1 [] ex_new] None,
               ex_injector [ex_binding 1 [] ex_null] (Some 0)]"

text \<open>
  \<open>marker_kept i k s s'\<close>: if the slot of \<open>k\<close> on injector \<open>i\<close> holds the construction
  marker in \<open>s\<close>, it still does in \<open>s'\<close> and the factory of that slot was not called
  in between. \<open>factory_calls\<close> counts the invocations of the factory of a slot.
\<close>

definition factory_calls :: "nat \<Rightarrow> key \<Rightarrow> world \<Rightarrow> nat" where
  "factory_calls i k s = length (filter (\<lambda>c. c = (i, kid k)) (calls s))"

definition marker_kept :: "nat \<Rightarrow> key \<Rightarrow> world \<Rightarrow> world \<Rightarrow> bool" where
  "marker_kept i k s s' =
     (getInstance s i k = Constructing \<longrightarrow>
        getInstance s' i k = Constructing \<and> factory_calls i k s' = factory_calls i k s)"

text \<open>
  \<open>delegates s k is r\<close>: the injectors \<open>is\<close> form a chain of parents that ends in \<open>r\<close>,
  none of them binds \<open>k\<close>, and their slots for \<open>k\<close> are empty.
\<close>

fun delegates :: "world \<Rightarrow> key \<Rightarrow> nat list \<Rightarrow> nat \<Rightarrow> bool" where
  "delegates s k [] r = True"
| "delegates s k (i # is) r =
     (getBinding s i k = None \<and> getInstance s i k = Value Null \<and>
      parent (injectors s i) = Some (hd (is @ [r])) \<and> delegates s k is r)"

text \<open>
  Injectors are created after their parents (\<open>new_Injector\<close> takes the next free
  address), so a parent has a smaller address than its child.
\<close>

definition ordered :: "world \<Rightarrow> bool" where
  "ordered s =
     (\<forall>i < allocated s. case parent (injectors s i) of None \<Rightarrow> True | Some p \<Rightarrow> p < i)"

text \<open>
  \<open>above_kept j s s'\<close>: from \<open>s\<close> to \<open>s'\<close> no injector was created or re-parented, no
  binding table changed, and the injectors with an address above \<open>j\<close> are as they were
  and none of their factories was called.
\<close>

definition above_kept :: "nat \<Rightarrow> world \<Rightarrow> world \<Rightarrow> bool" where
  "above_kept j s s' =
     (allocated s' = allocated s \<and>
      (\<forall>i. parent (injectors s' i) = parent (injectors s i)) \<and>
      (\<forall>i. bindings (injectors s' i) = bindings (injectors s i)) \<and>
      (\<forall>i. j < i \<longrightarrow> injectors s' i = injectors s i) \<and>
      (\<forall>i k. j < i \<longrightarrow> factory_calls i k s' = factory_calls i k s))"

fun keys_of :: "error \<Rightarrow> key list" where
  "keys_of (NoProviderError ks) = ks"
| "keys_of (AsyncBindingError ks) = ks"
| "keys_of (CyclicDependencyError ks) = ks"
| "keys_of (InstantiationError c ks) = ks"

definition frame_ok :: "nat \<Rightarrow> world \<Rightarrow> world \<Rightarrow> bool" where
  "frame_ok j s s' = (ordered s \<and> j < allocated s \<longrightarrow> above_kept j s s')"

text \<open>
  A root that binds key 1 with a dependency on key 2, which nobody binds; a root whose
  factory for key 1 returns \<open>null\<close>; a root binding key 1 with a child that binds
  nothing.
\<close>

definition ex_missing_dep :: world where
  "ex_missing_dep = ex_world [ex_injector [ex_binding 1 [ex_dep 2] ex_new] None]"

definition ex_null_root :: world where
  "ex_null_root = ex_world [ex_injector [ex_binding 1 [] ex_null] None]"

definition ex_plain_child :: world where
  "ex_plain_child =
     ex_world [ex_injector [ex_binding 1 [] ex_new] None, ex_injector [] (Some 0)]"

text \<open>
  A chain of lookups that runs into a slot under construction. From the lookup of \<open>k\<close>
  on injector \<open>i\<close>, a hop \<open>ViaDependency m\<close> goes to the \<open>m\<close>-th dependency of the
  binding of \<open>k\<close> on \<open>i\<close> (which is not lazy), after the dependencies listed before it
  have been resolved; a hop \<open>ViaParent\<close> goes to the parent, for a key that \<open>i\<close> does
  not bind. Every lookup on the way misses the cache. \<open>st\<close> are the slots marked by the
  hops made so far; the chain closes when its last lookup is of one of them.
  \<open>cycle_chain\<close> returns the lookups of the chain, the first one first.
\<close>

datatype hop = ViaDependency nat | ViaParent

fun cycle_chain ::
  "nat \<Rightarrow> (nat \<times> nat) list \<Rightarrow> nat \<Rightarrow> key \<Rightarrow> bool \<Rightarrow> world \<Rightarrow> hop list \<Rightarrow> (nat \<times> key) list option"
where
  "cycle_chain n st i k rf s [] =
     (if ktoken k \<noteq> InjectorType \<and> (i, kid k) \<in> set st then Some [(i, k)] else None)"
| "cycle_chain 0 st i k rf s (h # hs) = None"
| "cycle_chain (Suc n) st i k rf s (ViaParent # hs) =
     (if fst (readFromCache rf i k s) = Inr Null \<and> getBinding s i k = None
      then (case parent (injectors s i) of
              None \<Rightarrow> None
            | Some p \<Rightarrow> cycle_chain n st p k rf s hs)
      else None)"
| "cycle_chain (Suc n) st i k rf s (ViaDependency m # hs) =
     (if fst (readFromCache rf i k s) = Inr Null
      then (case getBinding s i k of
              None \<Rightarrow> None
            | Some b \<Rightarrow>
                if (rf \<or> \<not> providedAsFuture b) \<and> m < length (dependencies b)
                   \<and> \<not> lazy (dependencies b ! m)
                then (case getDependencies (getByKey (Suc n)) i rf (take m (dependencies b))
                             (markAsConstructing i k s) of
                        Some (Inr vs, s1) \<Rightarrow>
                          map_option ((#) (i, k))
                            (cycle_chain n ((i, kid k) # st) i (dkey (dependencies b ! m))
                               (rf \<or> asFuture (dependencies b ! m)) s1 hs)
                      | _ \<Rightarrow> None)
                else None)
      else None)"

text \<open>
  A root whose binding for key 1 depends lazily on key 1; a root whose binding for key 1
  depends on the unbound key 2 and then on key 1.
\<close>

definition ex_lazy_cycle :: world where
  "ex_lazy_cycle = ex_world [ex_injector [ex_binding 1 [ex_lazy_dep 1] ex_new] None]"

definition ex_late_cycle :: world where
  "ex_late_cycle = ex_world [ex_injector [ex_binding 1 [ex_dep 2, ex_dep 1] ex_new] None]"

text \<open>
  Two cycles: the binding of key 1 depends on key 3, which is bound without
  dependencies, and then on key 1; and the binding of key 1 asks for key 2 as a future,
  whose binding depends on key 1.
\<close>

definition ex_future_dep :: "nat \<Rightarrow> dependency" where
  "ex_future_dep n = \<lparr>dkey = ex_key n, asFuture = True, lazy = False\<rparr>"

definition ex_second_cycle :: world where
  "ex_second_cycle =
     ex_world [ex_injector [ex_binding 1 [ex_dep 3, ex_dep 1] ex_new, ex_binding 3 [] ex_new] None]"

definition ex_future_cycle :: world where
  "ex_future_cycle =
     ex_world [ex_injector [ex_binding 1 [ex_future_dep 2] ex_new,
                            ex_binding 2 [ex_dep 1] ex_new] None]"




text \<open>
  A root whose binding for key 1 depends on key 2, the factory of which throws.
\<close>

definition ex_failing_dep :: world where
  "ex_failing_dep =
     ex_world [ex_injector [ex_binding 1 [ex_dep 2] ex_new, ex_binding 2 [] ex_throw] None]"

text \<open>
  \<open>tasks_ok i k s\<close>: every task owns a future that exists, and no unfinished task
  constructs the slot of \<open>k\<close> on injector \<open>i\<close>. \<open>building i k s\<close>: moreover that slot
  holds the construction marker.
\<close>

definition tasks_ok :: "nat \<Rightarrow> key \<Rightarrow> world \<Rightarrow> bool" where
  "tasks_ok i k s =
     (\<forall>t \<in> set (tasks s).
        t_future t < length (futures s) \<and>
        (t_phase t = Done \<or> t_injector t \<noteq> i \<or> kid (t_key t) \<noteq> kid k))"


text \<open>
  The store after \<open>asyncGet\<close> of key 1 on \<open>ex_failing_dep\<close> and the callbacks of both
  tasks; and what is reported of a store: its futures, the slots of two keys, and what a
  further \<open>asyncGet\<close> of the first key returns.
\<close>

definition ex_failed :: world where
  "ex_failed =
     (case asyncGet 2 0 (ex_key 1) ex_failing_dep of
        Some (r, s) \<Rightarrow> run [Callback 0, Callback 1] s
      | None \<Rightarrow> ex_failing_dep)"

definition report ::
  "world \<Rightarrow> nat \<Rightarrow> key \<Rightarrow> key \<Rightarrow> fstate list \<times> inst \<times> inst \<times> (error + val) option" where
  "report s i k k' =
     (futures s, getInstance s i k, getInstance s i k', map_option fst (asyncGet 1 i k s))"





text \<open>
  The stores that a first and a second \<open>get\<close> of key 1 on the child of \<open>ex_null_child\<close>
  leave.
\<close>

definition ex_null_child_after :: world where
  "ex_null_child_after =
     (case get (Suc 1) 1 (ex_key 1) ex_null_child of
        Some (r, s1) \<Rightarrow> s1
      | None \<Rightarrow> ex_null_child)"

definition ex_null_child_again :: world where
  "ex_null_child_again =
     (case get (Suc 1) 1 (ex_key 1) ex_null_child_after of
        Some (r, s1) \<Rightarrow> s1
      | None \<Rightarrow> ex_null_child_after)"

text \<open>
  \<open>ex_rebinding\<close>: a root and a child that both bind key 1, and two grandchildren under
  the child that bind nothing. \<open>ex_rebinding_root\<close> is the store after the root has
  built its own instance, \<open>ex_rebinding_child\<close> the store after the child has built
  its own as well.
\<close>

definition ex_rebinding :: world where
  "ex_rebinding =
     ex_world [ex_injector [ex_binding 1 [] ex_new] None,
               ex_injector [ex_binding 1 [] ex_new] (Some 0),
               ex_injector [] (Some 1), ex_injector [] (Some 1)]"

definition ex_rebinding_root :: world where
  "ex_rebinding_root =
     setInstance 0 (ex_key 1) (Value (Obj 0)) (ex_rebinding\<lparr>calls := calls ex_rebinding @ [(0, 1)]\<rparr>)"

definition ex_rebinding_child :: world where
  "ex_rebinding_child =
     setInstance 1 (ex_key 1) (Value (Obj 1))
       (ex_rebinding_root\<lparr>calls := calls ex_rebinding_root @ [(1, 1)]\<rparr>)"

section \<open>Properties\<close>

subsection \<open>Flattening\<close>








subsection \<open>Synchronous lookup of an async-only binding\<close>

text \<open>
  Claim C8. When a synchronous \<open>get\<close> misses the cache and the local binding of the key
  is provided as a future, the lookup fails with \<open>AsyncBindingError\<close> and the whole
  store, hence the slot of the key, is as it was: the error is raised before
  \<open>_markAsConstructing\<close>.
\<close>

theorem get_async_only_binding:
  assumes "getBinding s i k = Some b" and "providedAsFuture b"
    and "sync_readFromCache i k s = Inr Null"
  shows "get (Suc n) i k s = Some (Inl (AsyncBindingError [k]), s)"
  using assms by (simp add: get_def getByKey_body_def readFromCache_def instantiate_def sync_instantiate_def isPresent_def)

theorem get_async_only_binding_witness:
  "getInstance (ex_world [ex_injector [ex_async_binding 1] None]) 0 (ex_key 1) = Value Null
   \<and> get (Suc 0) 0 (ex_key 1) (ex_world [ex_injector [ex_async_binding 1] None])
       = Some (Inl (AsyncBindingError [ex_key 1]), ex_world [ex_injector [ex_async_binding 1] None])"
proof -
  have b: "getBinding (ex_world [ex_injector [ex_async_binding 1] None]) 0 (ex_key 1)
             = Some (ex_async_binding 1)"
    by (simp add: getBinding_def ex_world_def ex_injector_def createListOfBindings_def
        binding_set_def ex_async_binding_def ex_key_def numeral_eq_Suc)
  have p: "providedAsFuture (ex_async_binding 1)"
    by (simp add: ex_async_binding_def)
  have i: "getInstance (ex_world [ex_injector [ex_async_binding 1] None]) 0 (ex_key 1) = Value Null"
    by (simp add: getInstance_def ex_world_def ex_injector_def createInstances_def ex_key_def
        numeral_eq_Suc)
  have c: "sync_readFromCache 0 (ex_key 1) (ex_world [ex_injector [ex_async_binding 1] None])
             = Inr Null"
    unfolding sync_readFromCache_def i by (simp add: ex_key_def)
  from get_async_only_binding[OF b p c, of 0] i show ?thesis by simp
qed

subsection \<open>Reading and writing slots\<close>

lemma list_set_same: "list_set xs n x ! n = x" "n < length (list_set xs n x)"
  by (auto simp: list_set_def nth_append)

lemma list_set_other: "m \<noteq> n \<Longrightarrow>
  (if length (list_set xs n x) \<le> m then Value Null else list_set xs n x ! m)
  = (if length xs \<le> m then Value Null else xs ! m)"
  by (auto simp: list_set_def nth_append)

lemma list_set_twice: "list_set (list_set xs n x) n y = list_set xs n y"
  by (auto simp: list_set_def list_update_append)

lemma getInstance_setInstance_same [simp]: "getInstance (setInstance i k x s) i k = x"
  using list_set_same(2)[where xs="instances (injectors s i)" and n="kid k" and x=x]
  by (simp add: getInstance_def setInstance_def list_set_same(1))

lemma getInstance_setInstance_other:
  "i \<noteq> j \<or> kid k \<noteq> kid k' \<Longrightarrow> getInstance (setInstance i k x s) j k' = getInstance s j k'"
  using list_set_other[where m="kid k'" and n="kid k" and xs="instances (injectors s i)" and x=x]
  by (auto simp: getInstance_def setInstance_def)

lemma getInstance_setInstance:
  "getInstance (setInstance i k y s) j x = (if j = i \<and> kid x = kid k then y else getInstance s j x)"
proof (cases "j = i \<and> kid x = kid k")
  case True
  then have "getInstance (setInstance i k y s) j x = getInstance (setInstance i k y s) i k"
    by (simp add: getInstance_def)
  with True show ?thesis by simp
next
  case False
  then show ?thesis using getInstance_setInstance_other[of i j k x y s] by auto
qed

lemma getBinding_setInstance [simp]: "getBinding (setInstance i k x s) j k' = getBinding s j k'"
  by (simp add: getBinding_def setInstance_def)

lemma parent_setInstance [simp]:
  "parent (injectors (setInstance i k x s) j) = parent (injectors s j)"
  by (simp add: setInstance_def)

lemma setInstance_twice [simp]: "setInstance i k y (setInstance i k x s) = setInstance i k y s"
  by (simp add: setInstance_def list_set_twice)

lemma fields_setInstance [simp]:
  "calls (setInstance i k x s) = calls s"
  "futures (setInstance i k x s) = futures s"
  "tasks (setInstance i k x s) = tasks s"
  by (simp_all add: setInstance_def)

lemma ex_getBinding:
  "getBinding (ex_world [ex_injector [ex_binding 1 ds f] par]) 0 (ex_key 1)
     = Some (ex_binding 1 ds f)"
  by (simp add: getBinding_def ex_world_def ex_injector_def createListOfBindings_def
      binding_set_def ex_binding_def ex_key_def numeral_eq_Suc)

subsection \<open>A synchronous lookup during a pending asynchronous one\<close>



subsection \<open>What a lookup leaves alone\<close>

text \<open>
  A slot that holds the construction marker is protected: a lookup that starts while the
  marker is there ends with the marker still there, and without a call of that slot's
  factory. The lemmas follow the call structure of the lookup.
\<close>

lemma marker_kept_refl: "marker_kept i k s s"
  by (simp add: marker_kept_def)

lemma marker_kept_trans: "marker_kept i k a b \<Longrightarrow> marker_kept i k b c \<Longrightarrow> marker_kept i k a c"
  by (simp add: marker_kept_def)

lemma marker_kept_vacuous: "getInstance s i k \<noteq> Constructing \<Longrightarrow> marker_kept i k s s'"
  by (simp add: marker_kept_def)

lemma getInstance_kid: "kid k = kid k' \<Longrightarrow> getInstance s i k = getInstance s i k'"
  by (simp add: getInstance_def)

lemma marker_kept_setInstance:
  "j \<noteq> i \<or> kid k' \<noteq> kid k \<Longrightarrow> marker_kept i k s (setInstance j k' x s)"
  by (auto simp: marker_kept_def factory_calls_def getInstance_setInstance_other)

lemma marker_kept_call:
  "j \<noteq> i \<or> kid k' \<noteq> kid k \<Longrightarrow> marker_kept i k s (s\<lparr>calls := calls s @ [(j, kid k')]\<rparr>)"
  by (auto simp: marker_kept_def factory_calls_def getInstance_def)

lemma marker_kept_futures:
  "marker_kept i k s (s\<lparr>futures := fs, tasks := ts\<rparr>)" "marker_kept i k s (s\<lparr>futures := fs\<rparr>)"
  by (auto simp: marker_kept_def factory_calls_def getInstance_def)

lemma getDependencies_rel:
  assumes refl: "\<And>s. P s s" and trans: "\<And>a b c. P a b \<Longrightarrow> P b c \<Longrightarrow> P a c"
    and g: "\<And>k rf rl s r s'. g j k rf rl s = Some (r, s') \<Longrightarrow> P s s'"
  shows "getDependencies g j fa ds s = Some (r, s') \<Longrightarrow> P s s'"
proof (induction ds arbitrary: s r s')
  case Nil
  then show ?case using refl by simp
next
  case (Cons d ds)
  from Cons.prems obtain r1 s1 where
    g1: "g j (dkey d) (fa \<or> asFuture d) (lazy d) s = Some (r1, s1)"
    by (auto split: option.splits)
  note p1 = g[OF g1]
  show ?case
  proof (cases r1)
    case (Inl e)
    with Cons.prems g1 have "s' = s1" by simp
    with p1 show ?thesis by simp
  next
    case (Inr v)
    with Cons.prems g1 obtain r2 where "getDependencies g j fa ds s1 = Some (r2, s')"
      by (auto split: option.splits sum.splits)
    from Cons.IH[OF this] p1 show ?thesis using trans by blast
  qed
qed

lemma resolveDependencies_marker:
  assumes g: "\<And>j k rf rl s r s'. g j k rf rl s = Some (r, s') \<Longrightarrow> marker_kept i k0 s s'"
    and d: "j \<noteq> i \<or> kid k \<noteq> kid k0"
    and r: "resolveDependencies g j k b fa s = Some (r, s')"
  shows "marker_kept i k0 s s'"
proof -
  from r obtain r1 s1 where gd: "getDependencies g j fa (dependencies b) s = Some (r1, s1)"
    by (auto simp: resolveDependencies_def split: option.splits)
  have p: "marker_kept i k0 s s1"
    by (rule getDependencies_rel[where P="marker_kept i k0", OF marker_kept_refl marker_kept_trans g gd])
  show ?thesis
  proof (cases r1)
    case (Inl e)
    with r gd have "s' = clear j k s1" by (simp add: resolveDependencies_def)
    with p marker_kept_setInstance[OF d, of s1] show ?thesis
      unfolding clear_def using marker_kept_trans by blast
  next
    case (Inr v)
    with r gd have "s' = s1" by (simp add: resolveDependencies_def)
    with p show ?thesis by simp
  qed
qed

lemma createInstance_marker:
  assumes d: "j \<noteq> i \<or> kid k \<noteq> kid k0" and c: "createInstance j k b deps s = (r, s')"
  shows "marker_kept i k0 s s'"
proof -
  have "marker_kept i k0 s (setInstance j k x (s\<lparr>calls := calls s @ [(j, kid k)]\<rparr>))" for x
    using marker_kept_trans[OF marker_kept_call[OF d] marker_kept_setInstance[OF d]] .
  with c show ?thesis
    by (auto simp: createInstance_def Let_def clear_def split: sum.splits)
qed

lemma sync_instantiate_marker:
  assumes g: "\<And>j k rf rl s r s'. g j k rf rl s = Some (r, s') \<Longrightarrow> marker_kept i k0 s s'"
    and d: "j \<noteq> i \<or> kid k \<noteq> kid k0"
    and r: "sync_instantiate g j k s = Some (r, s')"
  shows "marker_kept i k0 s s'"
proof (cases "getBinding s j k")
  case None
  with r show ?thesis by (simp add: sync_instantiate_def marker_kept_refl)
next
  case (Some b)
  show ?thesis
  proof (cases "providedAsFuture b")
    case True
    with Some r show ?thesis by (simp add: sync_instantiate_def marker_kept_refl)
  next
    case False
    with Some r obtain r1 s1 where
      rd: "resolveDependencies g j k b False (markAsConstructing j k s) = Some (r1, s1)"
      by (auto simp: sync_instantiate_def split: option.splits)
    have m: "marker_kept i k0 s (markAsConstructing j k s)"
      unfolding markAsConstructing_def by (rule marker_kept_setInstance[OF d])
    note p1 = marker_kept_trans[OF m resolveDependencies_marker[OF g d rd]]
    show ?thesis
    proof (cases r1)
      case (Inl e)
      with Some False r rd have "s' = s1" by (simp add: sync_instantiate_def)
      with p1 show ?thesis by simp
    next
      case (Inr deps)
      with Some False r rd have "createInstance j k b deps s1 = (r, s')"
        by (simp add: sync_instantiate_def)
      from marker_kept_trans[OF p1 createInstance_marker[OF d this]] show ?thesis .
    qed
  qed
qed

lemma async_instantiate_marker:
  assumes g: "\<And>j k rf rl s r s'. g j k rf rl s = Some (r, s') \<Longrightarrow> marker_kept i k0 s s'"
    and d: "j \<noteq> i \<or> kid k \<noteq> kid k0"
    and r: "async_instantiate g j k s = Some (r, s')"
  shows "marker_kept i k0 s s'"
proof (cases "getBinding s j k")
  case None
  with r show ?thesis by (simp add: async_instantiate_def marker_kept_refl)
next
  case (Some b)
  with r obtain r1 s1 where
    rd: "resolveDependencies g j k b True (markAsConstructing j k s) = Some (r1, s1)"
    by (auto simp: async_instantiate_def split: option.splits)
  have m: "marker_kept i k0 s (markAsConstructing j k s)"
    unfolding markAsConstructing_def by (rule marker_kept_setInstance[OF d])
  note p1 = marker_kept_trans[OF m resolveDependencies_marker[OF g d rd]]
  show ?thesis
  proof (cases r1)
    case (Inl e)
    with Some r rd have "s' = s1" by (simp add: async_instantiate_def)
    with p1 show ?thesis by simp
  next
    case (Inr deps)
    with Some r rd have "\<exists>fs ts x. s' = setInstance j k x (s1\<lparr>futures := fs, tasks := ts\<rparr>)"
      by (auto simp: async_instantiate_def Let_def)
    then obtain fs ts x where "s' = setInstance j k x (s1\<lparr>futures := fs, tasks := ts\<rparr>)" by blast
    with marker_kept_trans[OF marker_kept_futures(1) marker_kept_setInstance[OF d]]
    have "marker_kept i k0 s1 s'" by simp
    from marker_kept_trans[OF p1 this] show ?thesis .
  qed
qed

lemma async_readFromCache_marker: "async_readFromCache j k s = (r, s') \<Longrightarrow> marker_kept i k0 s s'"
  by (auto simp: async_readFromCache_def future_value_def marker_kept_refl marker_kept_futures
      split: if_splits inst.splits val.splits)


lemma getByKey_body_elim:
  assumes "getByKey_body g i k rf rl s = Some (r, s')"
  obtains
    (Lazy) "rl" "r = Inr (LazyRef i k rf)" "s' = s"
  | (Cache) "\<not> rl" "readFromCache rf i k s = (r, s')" "r \<noteq> Inr Null"
  | (Inst) s1 where "\<not> rl" "readFromCache rf i k s = (Inr Null, s1)"
      "instantiate g rf i k s1 = Some (r, s')" "r \<noteq> Inr Null"
  | (Parent) s1 s2 p where "\<not> rl" "readFromCache rf i k s = (Inr Null, s1)"
      "instantiate g rf i k s1 = Some (Inr Null, s2)" "parent (injectors s2 i) = Some p"
      "g p k rf rl s2 = Some (r, s')"
  | (NoProvider) s1 where "\<not> rl" "readFromCache rf i k s = (Inr Null, s1)"
      "instantiate g rf i k s1 = Some (Inr Null, s')" "parent (injectors s' i) = None"
      "r = Inl (NoProviderError [k])"
  using assms unfolding getByKey_body_def isPresent_def
  by (auto split: if_splits prod.splits sum.splits option.splits)

lemma readFromCache_marker: "readFromCache rf j k s = (r, s') \<Longrightarrow> marker_kept i k0 s s'"
  by (auto simp: readFromCache_def marker_kept_refl async_readFromCache_marker split: if_splits)

lemma instantiate_marker:
  assumes g: "\<And>j k rf rl s r s'. g j k rf rl s = Some (r, s') \<Longrightarrow> marker_kept i k0 s s'"
    and d: "j \<noteq> i \<or> kid k \<noteq> kid k0"
    and r: "instantiate g rf j k s = Some (r, s')"
  shows "marker_kept i k0 s s'"
  using r sync_instantiate_marker[OF g d] async_instantiate_marker[OF g d]
  by (auto simp: instantiate_def split: if_splits)

lemma readFromCache_miss:
  assumes "readFromCache rf j k s = (Inr Null, s1)"
  shows "s1 = s" and "getInstance s j k \<noteq> Constructing" and "ktoken k \<noteq> InjectorType"
  using assms
  by (auto simp: readFromCache_def sync_readFromCache_def async_readFromCache_def future_value_def
      isPresent_def split: if_splits inst.splits val.splits)

lemma miss_other_slot:
  assumes "readFromCache rf j k s = (Inr Null, s1)" and "getInstance s i k0 = Constructing"
  shows "j \<noteq> i \<or> kid k \<noteq> kid k0"
proof (rule ccontr)
  assume "\<not> (j \<noteq> i \<or> kid k \<noteq> kid k0)"
  then have "j = i" and "kid k = kid k0" by simp_all
  with assms(2) have "getInstance s j k = Constructing"
    by (auto simp: getInstance_def split: if_splits)
  with readFromCache_miss(2)[OF assms(1)] show False by simp
qed

lemma getByKey_marker:
  "getByKey n j k rf rl s = Some (r, s') \<Longrightarrow> marker_kept i k0 s s'"
proof (induction n arbitrary: j k rf rl s r s')
  case 0
  then show ?case by simp
next
  case (Suc n)
  from Suc.prems have b: "getByKey_body (getByKey n) j k rf rl s = Some (r, s')" by simp
  show ?case
  proof (cases "getInstance s i k0 = Constructing")
    case False
    then show ?thesis by (rule marker_kept_vacuous)
  next
    case True
    from b show ?thesis
    proof (cases rule: getByKey_body_elim)
      case Lazy
      then show ?thesis by (simp add: marker_kept_refl)
    next
      case Cache
      then show ?thesis by (simp add: readFromCache_marker)
    next
      case (Inst s1)
      note d = miss_other_slot[OF Inst(2) True] and e = readFromCache_miss(1)[OF Inst(2)]
      from instantiate_marker[OF Suc.IH d Inst(3)] e show ?thesis by simp
    next
      case (Parent s1 s2 p)
      note d = miss_other_slot[OF Parent(2) True] and e = readFromCache_miss(1)[OF Parent(2)]
      from instantiate_marker[OF Suc.IH d Parent(3)] e have "marker_kept i k0 s s2" by simp
      from marker_kept_trans[OF this Suc.IH[OF Parent(5)]] show ?thesis .
    next
      case (NoProvider s1)
      note d = miss_other_slot[OF NoProvider(2) True] and e = readFromCache_miss(1)[OF NoProvider(2)]
      from instantiate_marker[OF Suc.IH d NoProvider(3)] e show ?thesis by simp
    qed
  qed
qed

subsection \<open>Two consecutive lookups\<close>

lemma sync_hit:
  assumes "sync_readFromCache i k s = Inr v" and "v \<noteq> Null"
  shows "get (Suc m) i k s = Some (Inr v, s)"
  using assms by (simp add: get_def getByKey_body_def readFromCache_def isPresent_def)

lemma sync_instantiate_bound:
  assumes "sync_instantiate g i k s = Some (r, s')" and "getBinding s i k = Some b"
  obtains (Async) "providedAsFuture b" "r = Inl (AsyncBindingError [k])" "s' = s"
  | (DepError) e where "\<not> providedAsFuture b"
      "resolveDependencies g i k b False (markAsConstructing i k s) = Some (Inl e, s')" "r = Inl e"
  | (Create) deps s2 where "\<not> providedAsFuture b"
      "resolveDependencies g i k b False (markAsConstructing i k s) = Some (Inr deps, s2)"
      "createInstance i k b deps s2 = (r, s')"
  using assms by (auto simp: sync_instantiate_def split: if_splits option.splits sum.splits)

lemma resolveDependencies_ok:
  assumes "resolveDependencies g i k b fa s = Some (Inr deps, s')"
  shows "getDependencies g i fa (dependencies b) s = Some (Inr deps, s')"
  using assms by (auto simp: resolveDependencies_def split: option.splits sum.splits)

lemma createInstance_cases:
  assumes "createInstance i k b deps s = (r, s')"
  obtains (Ok) v where "factory b (length (calls s)) (map Value deps) = Inr v" "r = Inr v"
      "s' = setInstance i k (Value v) (s\<lparr>calls := calls s @ [(i, kid k)]\<rparr>)"
  | (Throw) c where "factory b (length (calls s)) (map Value deps) = Inl c"
      "r = Inl (InstantiationError c [k])"
      "s' = clear i k (s\<lparr>calls := calls s @ [(i, kid k)]\<rparr>)"
  using assms by (auto simp: createInstance_def Let_def split: sum.splits)

lemma factory_calls_append [simp]:
  "factory_calls i k (s\<lparr>calls := calls s @ [(i, kid k)]\<rparr>) = Suc (factory_calls i k s)"
  by (simp add: factory_calls_def)

lemma factory_calls_setInstance [simp]:
  "factory_calls i k (setInstance j k' x s) = factory_calls i k s"
  by (simp add: factory_calls_def)

lemma get_no_dependencies:
  assumes "sync_readFromCache i k s = Inr Null" and "getBinding s i k = Some b"
    and "\<not> providedAsFuture b" and "dependencies b = []"
    and "factory b (length (calls s)) [] = Inr v" and "v \<noteq> Null"
  shows "get (Suc n) i k s
           = Some (Inr v, setInstance i k (Value v) (s\<lparr>calls := calls s @ [(i, kid k)]\<rparr>))"
  using assms
  by (simp add: get_def getByKey_body_def readFromCache_def instantiate_def isPresent_def
      sync_instantiate_def resolveDependencies_def createInstance_def markAsConstructing_def
      Let_def setInstance_def list_set_twice)

lemma ex_single_miss:
  "sync_readFromCache 0 (ex_key 1) (ex_world [ex_injector bs par]) = Inr Null"
  by (simp add: sync_readFromCache_def getInstance_def ex_world_def ex_injector_def
      createInstances_def ex_key_def numeral_eq_Suc)

lemma get_bound_success:
  assumes g: "get (Suc n) i k s = Some (Inr v, s')" and b: "getBinding s i k = Some b"
    and nn: "\<forall>c ds. factory b c ds \<noteq> Inr Null"
  shows "sync_readFromCache i k s' = Inr v \<and> v \<noteq> Null
    \<and> factory_calls i k s' \<le> Suc (factory_calls i k s)"
proof -
  from g have "getByKey_body (getByKey n) i k False False s = Some (Inr v, s')"
    by (simp add: get_def)
  then show ?thesis
  proof (cases rule: getByKey_body_elim)
    case Lazy
    then show ?thesis by simp
  next
    case Cache
    then have "sync_readFromCache i k s = Inr v" and "s' = s" and "v \<noteq> Null"
      by (auto simp: readFromCache_def)
    then show ?thesis by simp
  next
    case (Inst s1)
    note e = readFromCache_miss[OF Inst(2)]
    from Inst(3) e(1) have si: "sync_instantiate (getByKey n) i k s = Some (Inr v, s')"
      by (simp add: instantiate_def)
    from si b show ?thesis
    proof (cases rule: sync_instantiate_bound)
      case (Create deps s2)
      from Create(3) show ?thesis
      proof (cases rule: createInstance_cases)
        case (Ok v')
        then have s': "s' = setInstance i k (Value v) (s2\<lparr>calls := calls s2 @ [(i, kid k)]\<rparr>)"
          by simp
        have "getInstance s' i k = Value v" by (simp add: s')
        with e(3) Inst(4) have 1: "sync_readFromCache i k s' = Inr v \<and> v \<noteq> Null"
          by (simp_all add: sync_readFromCache_def)
        have "marker_kept i k (markAsConstructing i k s) s2"
          by (rule getDependencies_rel[where P="marker_kept i k", OF marker_kept_refl
                marker_kept_trans getByKey_marker resolveDependencies_ok[OF Create(2)]])
        then have "factory_calls i k s2 = factory_calls i k s"
          by (simp add: marker_kept_def markAsConstructing_def)
        then have 2: "factory_calls i k s' = Suc (factory_calls i k s)"
          by (simp add: s')
        from 1 2 show ?thesis by simp
      qed simp
    qed simp_all
  next
    case (Parent s1 s2 p)
    note e = readFromCache_miss[OF Parent(2)]
    from Parent(3) e(1) have si: "sync_instantiate (getByKey n) i k s = Some (Inr Null, s2)"
      by (simp add: instantiate_def)
    from si b have False
    proof (cases rule: sync_instantiate_bound)
      case (Create deps s3)
      from Create(3) show ?thesis
        using nn by (cases rule: createInstance_cases) auto
    qed simp_all
    then show ?thesis ..
  next
    case (NoProvider s1)
    then show ?thesis by simp
  qed
qed

text \<open>
  Claim C1, amended. For a key bound on the injector by a binding whose factory does not
  return \<open>null\<close>: when \<open>get\<close> succeeds, a second \<open>get\<close> in the store it left returns
  the same instance and leaves that store as it is (so no factory runs), and the first
  call ran the factory of the slot at most once.
\<close>

theorem get_twice_same_instance:
  assumes g: "get (Suc n) i k s = Some (Inr v, s')" and b: "getBinding s i k = Some b"
    and nn: "\<forall>c ds. factory b c ds \<noteq> Inr Null"
  shows "get (Suc m) i k s' = Some (Inr v, s') \<and> factory_calls i k s' \<le> Suc (factory_calls i k s)"
  using get_bound_success[OF g b nn] sync_hit[of i k s' v m] by simp

theorem get_twice_same_instance_witness:
  "get (Suc 0) 0 (ex_key 1) (ex_world [ex_injector [ex_binding 1 [] ex_new] None])
     = Some (Inr (Obj 0),
         setInstance 0 (ex_key 1) (Value (Obj 0))
           ((ex_world [ex_injector [ex_binding 1 [] ex_new] None])\<lparr>calls := [(0, 1)]\<rparr>))
   \<and> get (Suc 0) 0 (ex_key 1)
         (setInstance 0 (ex_key 1) (Value (Obj 0))
           ((ex_world [ex_injector [ex_binding 1 [] ex_new] None])\<lparr>calls := [(0, 1)]\<rparr>))
     = Some (Inr (Obj 0),
         setInstance 0 (ex_key 1) (Value (Obj 0))
           ((ex_world [ex_injector [ex_binding 1 [] ex_new] None])\<lparr>calls := [(0, 1)]\<rparr>))"
proof -
  let ?w = "ex_world [ex_injector [ex_binding 1 [] ex_new] None]"
  have b: "getBinding ?w 0 (ex_key 1) = Some (ex_binding 1 [] ex_new)"
    by (rule ex_getBinding)
  have c: "calls ?w = []" by (simp add: ex_world_def)
  have g: "get (Suc 0) 0 (ex_key 1) ?w
             = Some (Inr (Obj 0), setInstance 0 (ex_key 1) (Value (Obj 0)) (?w\<lparr>calls := [(0, 1)]\<rparr>))"
    using get_no_dependencies[OF ex_single_miss b, of "Obj 0" 0] c
    by (simp add: ex_binding_def ex_new_def ex_key_def)
  have nn: "\<forall>c ds. factory (ex_binding 1 [] ex_new) c ds \<noteq> Inr Null"
    by (simp add: ex_binding_def ex_new_def)
  from get_twice_same_instance[OF g b nn, of 0] g show ?thesis by simp
qed

text \<open>
  Claim C1, as stated, fails. In \<open>ex_null_child\<close> key 1 is bound on the child and both
  \<open>get\<close> calls on the child succeed with the same object, yet the child's factory for
  key 1 has run twice after the two calls.
\<close>

theorem null_factory_called_twice_counterexample:
  "map_option fst (get 2 1 (ex_key 1) ex_null_child) = Some (Inr (Obj 1))
   \<and> map_option fst (and_then (get 2 1 (ex_key 1) ex_null_child) (get 2 1 (ex_key 1))) = Some (Inr (Obj 1))
   \<and> map_option (\<lambda>(r, s). factory_calls 1 (ex_key 1) s)
        (and_then (get 2 1 (ex_key 1) ex_null_child) (get 2 1 (ex_key 1))) = Some 2
   \<and> factory_calls 1 (ex_key 1) ex_null_child = 0"
  by code_simp

subsection \<open>Lookups stay on the chain of parents\<close>

text \<open>
  A lookup on an injector writes to that injector and to its ancestors only; since every
  parent has a smaller address, the injectors with a larger address are left as they
  were. Bindings, parents and the number of injectors never change.
\<close>

lemma above_kept_refl: "above_kept j s s"
  by (simp add: above_kept_def)

lemma above_kept_trans: "above_kept j a b \<Longrightarrow> above_kept j b c \<Longrightarrow> above_kept j a c"
  by (simp add: above_kept_def)

lemma above_kept_mono: "p \<le> j \<Longrightarrow> above_kept p s s' \<Longrightarrow> above_kept j s s'"
  by (simp add: above_kept_def)

lemma above_kept_setInstance: "above_kept j s (setInstance j k x s)"
  by (simp add: above_kept_def setInstance_def factory_calls_def)

lemma above_kept_fields:
  "above_kept j s (s\<lparr>calls := calls s @ [(j, n)]\<rparr>)" "above_kept j s (s\<lparr>futures := fs\<rparr>)"
  "above_kept j s (s\<lparr>futures := fs, tasks := ts\<rparr>)"
  by (simp_all add: above_kept_def factory_calls_def)

lemma ordered_above: "ordered s \<Longrightarrow> above_kept j s s' \<Longrightarrow> ordered s'"
  by (simp add: ordered_def above_kept_def)

lemma frame_ok_refl: "frame_ok j s s"
  by (simp add: frame_ok_def above_kept_refl)

lemma frame_ok_trans: "frame_ok j a b \<Longrightarrow> frame_ok j b c \<Longrightarrow> frame_ok j a c"
  unfolding frame_ok_def using ordered_above above_kept_trans
  by (metis above_kept_def)

lemma frame_ok_above: "above_kept j s s' \<Longrightarrow> frame_ok j s s'"
  by (simp add: frame_ok_def)

lemma resolveDependencies_frame:
  assumes g: "\<And>k rf rl s r s'. g j k rf rl s = Some (r, s') \<Longrightarrow> frame_ok j s s'"
    and r: "resolveDependencies g j k b fa s = Some (r, s')"
  shows "frame_ok j s s'"
proof -
  from r obtain r1 s1 where gd: "getDependencies g j fa (dependencies b) s = Some (r1, s1)"
    by (auto simp: resolveDependencies_def split: option.splits)
  have p: "frame_ok j s s1"
    by (rule getDependencies_rel[where P="frame_ok j", OF frame_ok_refl frame_ok_trans g gd])
  show ?thesis
  proof (cases r1)
    case (Inl e)
    with r gd have "s' = clear j k s1" by (simp add: resolveDependencies_def)
    with frame_ok_trans[OF p frame_ok_above[OF above_kept_setInstance]] show ?thesis
      by (simp add: clear_def)
  next
    case (Inr v)
    with r gd have "s' = s1" by (simp add: resolveDependencies_def)
    with p show ?thesis by simp
  qed
qed

lemma createInstance_frame:
  assumes c: "createInstance j k b deps s = (r, s')"
  shows "frame_ok j s s'"
proof -
  have "above_kept j s (setInstance j k x (s\<lparr>calls := calls s @ [(j, kid k)]\<rparr>))" for x
    using above_kept_trans[OF above_kept_fields(1) above_kept_setInstance] .
  with c show ?thesis
    by (auto simp: createInstance_def Let_def clear_def frame_ok_def split: sum.splits)
qed

lemma sync_instantiate_frame:
  assumes g: "\<And>k rf rl s r s'. g j k rf rl s = Some (r, s') \<Longrightarrow> frame_ok j s s'"
    and r: "sync_instantiate g j k s = Some (r, s')"
  shows "frame_ok j s s'"
proof (cases "getBinding s j k")
  case None
  with r show ?thesis by (simp add: sync_instantiate_def frame_ok_refl)
next
  case (Some b)
  from r Some show ?thesis
  proof (cases rule: sync_instantiate_bound)
    case Async
    then show ?thesis by (simp add: frame_ok_refl)
  next
    case (DepError e)
    have m: "frame_ok j s (markAsConstructing j k s)"
      unfolding markAsConstructing_def by (rule frame_ok_above[OF above_kept_setInstance])
    from frame_ok_trans[OF m resolveDependencies_frame[OF g DepError(2)]] show ?thesis .
  next
    case (Create deps s2)
    have m: "frame_ok j s (markAsConstructing j k s)"
      unfolding markAsConstructing_def by (rule frame_ok_above[OF above_kept_setInstance])
    from frame_ok_trans[OF frame_ok_trans[OF m resolveDependencies_frame[OF g Create(2)]]
        createInstance_frame[OF Create(3)]] show ?thesis .
  qed
qed

lemma async_instantiate_frame:
  assumes g: "\<And>k rf rl s r s'. g j k rf rl s = Some (r, s') \<Longrightarrow> frame_ok j s s'"
    and r: "async_instantiate g j k s = Some (r, s')"
  shows "frame_ok j s s'"
proof (cases "getBinding s j k")
  case None
  with r show ?thesis by (simp add: async_instantiate_def frame_ok_refl)
next
  case (Some b)
  with r obtain r1 s1 where
    rd: "resolveDependencies g j k b True (markAsConstructing j k s) = Some (r1, s1)"
    by (auto simp: async_instantiate_def split: option.splits)
  have m: "frame_ok j s (markAsConstructing j k s)"
    unfolding markAsConstructing_def by (rule frame_ok_above[OF above_kept_setInstance])
  note p1 = frame_ok_trans[OF m resolveDependencies_frame[OF g rd]]
  show ?thesis
  proof (cases r1)
    case (Inl e)
    with Some r rd have "s' = s1" by (simp add: async_instantiate_def)
    with p1 show ?thesis by simp
  next
    case (Inr deps)
    with Some r rd have "\<exists>fs ts x. s' = setInstance j k x (s1\<lparr>futures := fs, tasks := ts\<rparr>)"
      by (auto simp: async_instantiate_def Let_def)
    then obtain fs ts x where "s' = setInstance j k x (s1\<lparr>futures := fs, tasks := ts\<rparr>)" by blast
    with above_kept_trans[OF above_kept_fields(3) above_kept_setInstance]
    have "above_kept j s1 s'" by simp
    from frame_ok_trans[OF p1 frame_ok_above[OF this]] show ?thesis .
  qed
qed

lemma readFromCache_frame: "readFromCache rf j k s = (r, s') \<Longrightarrow> frame_ok j s s'"
  by (auto simp: readFromCache_def async_readFromCache_def future_value_def frame_ok_refl
      frame_ok_above above_kept_fields split: if_splits inst.splits val.splits)

lemma instantiate_frame:
  assumes g: "\<And>k rf rl s r s'. g j k rf rl s = Some (r, s') \<Longrightarrow> frame_ok j s s'"
    and r: "instantiate g rf j k s = Some (r, s')"
  shows "frame_ok j s s'"
  using r sync_instantiate_frame[OF g] async_instantiate_frame[OF g]
  by (auto simp: instantiate_def split: if_splits)

lemma frame_ok_parent:
  assumes a: "frame_ok j s s2" and p: "parent (injectors s2 j) = Some p" and b: "frame_ok p s2 s'"
  shows "frame_ok j s s'"
proof (unfold frame_ok_def, intro impI)
  assume o: "ordered s \<and> j < allocated s"
  with a have k: "above_kept j s s2" by (simp add: frame_ok_def)
  with o have o2: "ordered s2" and al: "allocated s2 = allocated s"
    using ordered_above by (auto simp: above_kept_def)
  from o2 al o p have "p < j" by (auto simp: ordered_def split: option.splits)
  with o al o2 b have "above_kept p s2 s'" by (simp add: frame_ok_def)
  with \<open>p < j\<close> have "above_kept j s2 s'" using above_kept_mono[of p j] by simp
  with k show "above_kept j s s'" by (rule above_kept_trans)
qed

lemma getByKey_frame:
  "getByKey n j k rf rl s = Some (r, s') \<Longrightarrow> frame_ok j s s'"
proof (induction n arbitrary: j k rf rl s r s')
  case 0
  then show ?case by simp
next
  case (Suc n)
  from Suc.prems have b: "getByKey_body (getByKey n) j k rf rl s = Some (r, s')" by simp
  from b show ?case
  proof (cases rule: getByKey_body_elim)
    case Lazy
    then show ?thesis by (simp add: frame_ok_refl)
  next
    case Cache
    then show ?thesis by (simp add: readFromCache_frame)
  next
    case (Inst s1)
    note e = readFromCache_miss(1)[OF Inst(2)]
    from instantiate_frame[OF Suc.IH Inst(3)] e show ?thesis by simp
  next
    case (Parent s1 s2 p)
    note e = readFromCache_miss(1)[OF Parent(2)]
    from instantiate_frame[OF Suc.IH Parent(3)] e have "frame_ok j s s2" by simp
    from frame_ok_parent[OF this Parent(4) Suc.IH[OF Parent(5)]] show ?thesis .
  next
    case (NoProvider s1)
    note e = readFromCache_miss(1)[OF NoProvider(2)]
    from instantiate_frame[OF Suc.IH NoProvider(3)] e show ?thesis by simp
  qed
qed

subsection \<open>Stores built by the constructor\<close>

text \<open>
  The two conditions on stores used below hold of the empty store and are kept by every
  creation of an injector: parents have smaller addresses, and no task is unfinished.
\<close>

lemma ordered_empty_world: "ordered empty_world"
  by (simp add: ordered_def empty_world_def)

lemma ordered_new_Injector:
  assumes "ordered s" and "new_Injector toClass numberOfKeys rawBindings par s = Inr (a, s')"
    and "case par of None \<Rightarrow> True | Some p \<Rightarrow> p < allocated s"
  shows "ordered s' \<and> a = allocated s \<and> allocated s' = Suc a \<and> parent (injectors s' a) = par"
  using assms
  by (auto simp: ordered_def new_Injector_def less_Suc_eq split: sum.splits option.splits)

lemma ordered_createChild:
  assumes "ordered s" and "createChild toClass numberOfKeys i rawBindings s = Inr (a, s')"
    and "i < allocated s"
  shows "ordered s' \<and> parent (injectors s' a) = Some i"
proof -
  from assms(2) have "new_Injector toClass numberOfKeys rawBindings (Some i) s = Inr (a, s')"
    by (simp add: createChild_def)
  from ordered_new_Injector[OF assms(1) this] assms(3) show ?thesis by auto
qed

lemma tasks_ok_empty_world: "tasks_ok i k empty_world"
  by (simp add: tasks_ok_def empty_world_def)

lemma tasks_ok_new_Injector:
  assumes "tasks_ok i k s" and "new_Injector toClass numberOfKeys rawBindings par s = Inr (a, s')"
  shows "tasks_ok i k s'"
  using assms by (auto simp: tasks_ok_def new_Injector_def split: sum.splits)

subsection \<open>Delegation to the parent\<close>

lemma delegate_step:
  assumes "getBinding s i k = None" and "getInstance s i k = Value Null"
    and "parent (injectors s i) = Some p" and "ktoken k \<noteq> InjectorType"
  shows "getByKey (Suc n) i k rf False s = getByKey n p k rf False s"
  using assms
  by (simp add: getByKey_body_def readFromCache_def instantiate_def sync_readFromCache_def
      async_readFromCache_def isPresent_def sync_instantiate_def async_instantiate_def)

lemma root_unbound:
  assumes "getBinding s i k = None" and "getInstance s i k = Value Null"
    and "parent (injectors s i) = None" and "ktoken k \<noteq> InjectorType"
  shows "getByKey (Suc n) i k rf False s = Some (Inl (NoProviderError [k]), s)"
  using assms
  by (simp add: getByKey_body_def readFromCache_def instantiate_def sync_readFromCache_def
      async_readFromCache_def isPresent_def sync_instantiate_def async_instantiate_def)

lemma delegates_lookup:
  assumes "ktoken k \<noteq> InjectorType"
  shows "delegates s k js r \<Longrightarrow>
         getByKey (length js + n) (hd (js @ [r])) k rf False s = getByKey n r k rf False s"
proof (induction js)
  case Nil
  then show ?case by simp
next
  case (Cons i js)
  then have "getByKey (Suc (length js + n)) i k rf False s
               = getByKey (length js + n) (hd (js @ [r])) k rf False s"
    using assms by (intro delegate_step) simp_all
  with Cons show ?case by simp
qed

subsection \<open>Errors of a lookup\<close>

lemma keys_of_addKey [simp]: "keys_of (addKey e k) = keys_of e @ [k]"
  by (cases e) simp_all

lemma getDependencies_error:
  assumes g: "\<And>k rf rl s s' e. g j k rf rl s = Some (Inl e, s') \<Longrightarrow> Q e"
  shows "getDependencies g j fa ds s = Some (Inl e, s') \<Longrightarrow> Q e"
proof (induction ds arbitrary: s)
  case Nil
  then show ?case by simp
next
  case (Cons d ds)
  then show ?case using g
    by (auto split: option.splits sum.splits prod.splits)
qed

lemma resolveDependencies_error:
  assumes g: "\<And>k rf rl s s' e. g j k rf rl s = Some (Inl e, s') \<Longrightarrow> keys_of e \<noteq> []"
    and r: "resolveDependencies g j k b fa s = Some (Inl e, s')"
  shows "\<exists>ks. ks \<noteq> [] \<and> keys_of e = ks @ [k]"
proof -
  from r obtain e1 s1 where gd: "getDependencies g j fa (dependencies b) s = Some (Inl e1, s1)"
    and e: "e = addKey e1 k"
    by (auto simp: resolveDependencies_def split: option.splits sum.splits)
  from getDependencies_error[where Q="\<lambda>e. keys_of e \<noteq> []", OF g gd] e show ?thesis by simp
qed

lemma async_instantiate_bound:
  assumes "async_instantiate g i k s = Some (r, s')" and "getBinding s i k = Some b"
  obtains (DepError) e where
      "resolveDependencies g i k b True (markAsConstructing i k s) = Some (Inl e, s')" "r = Inl e"
  | (Pending) deps s2 where
      "resolveDependencies g i k b True (markAsConstructing i k s) = Some (Inr deps, s2)"
      "r = Inr (FutureRef (length (futures s2)))"
      "s' = setInstance i k (Waiting (length (futures s2)))
              (s2\<lparr>futures := futures s2 @ [Pending],
                  tasks := tasks s2 @ [\<lparr>t_injector = i, t_key = k, t_binding = b, t_deps = deps,
                         t_future = length (futures s2), t_phase = AwaitDeps\<rparr>]\<rparr>)"
  using assms by (auto simp: async_instantiate_def Let_def split: option.splits sum.splits)

lemma instantiate_bound_error:
  assumes g: "\<And>k rf rl s s' e. g j k rf rl s = Some (Inl e, s') \<Longrightarrow> keys_of e \<noteq> []"
    and r: "instantiate g rf j k s = Some (Inl e, s')" and b: "getBinding s j k = Some b"
  shows "keys_of e \<noteq> [] \<and> e \<noteq> NoProviderError [k]"
proof (cases rf)
  case True
  with r have "async_instantiate g j k s = Some (Inl e, s')" by (simp add: instantiate_def)
  from this b show ?thesis
  proof (cases rule: async_instantiate_bound)
    case (DepError e')
    with resolveDependencies_error[OF g DepError(1)] show ?thesis by auto
  qed simp
next
  case False
  with r have "sync_instantiate g j k s = Some (Inl e, s')" by (simp add: instantiate_def)
  from this b show ?thesis
  proof (cases rule: sync_instantiate_bound)
    case Async
    then show ?thesis by simp
  next
    case (DepError e')
    with resolveDependencies_error[OF g DepError(2)] show ?thesis by auto
  next
    case (Create deps s2)
    from Create(3) show ?thesis by (cases rule: createInstance_cases) auto
  qed
qed

lemma instantiate_unbound:
  assumes "getBinding s j k = None"
  shows "instantiate g rf j k s = Some (Inr Null, s)"
  using assms by (simp add: instantiate_def sync_instantiate_def async_instantiate_def)

lemma readFromCache_error:
  "readFromCache rf j k s = (Inl e, s') \<Longrightarrow> e = CyclicDependencyError [k]"
  by (auto simp: readFromCache_def sync_readFromCache_def async_readFromCache_def future_value_def
      split: if_splits inst.splits val.splits)

lemma getByKey_error_keys:
  "getByKey n j k rf rl s = Some (Inl e, s') \<Longrightarrow> keys_of e \<noteq> []"
proof (induction n arbitrary: j k rf rl s s' e)
  case 0
  then show ?case by simp
next
  case (Suc n)
  from Suc.prems have b: "getByKey_body (getByKey n) j k rf rl s = Some (Inl e, s')" by simp
  from b show ?case
  proof (cases rule: getByKey_body_elim)
    case Cache
    from readFromCache_error[OF Cache(2)] show ?thesis by simp
  next
    case (Inst s1)
    show ?thesis
    proof (cases "getBinding s1 j k")
      case None
      from instantiate_unbound[OF None] Inst(3) show ?thesis by simp
    next
      case (Some b)
      from instantiate_bound_error[OF Suc.IH Inst(3) Some] show ?thesis by simp
    qed
  next
    case (Parent s1 s2 p)
    from Suc.IH[OF Parent(5)] show ?thesis .
  qed simp_all
qed

lemma instantiate_bound_null:
  assumes r: "instantiate g rf j k s = Some (Inr Null, s')" and b: "getBinding s j k = Some b"
  shows "\<not> rf \<and> (\<exists>c ds. factory b c ds = Inr Null)"
proof (cases rf)
  case True
  with r have "async_instantiate g j k s = Some (Inr Null, s')" by (simp add: instantiate_def)
  from this b show ?thesis by (cases rule: async_instantiate_bound) simp_all
next
  case False
  with r have "sync_instantiate g j k s = Some (Inr Null, s')" by (simp add: instantiate_def)
  from this b show ?thesis
  proof (cases rule: sync_instantiate_bound)
    case (Create deps s2)
    from Create(3) False show ?thesis by (cases rule: createInstance_cases) auto
  qed simp_all
qed

lemma bound_not_NoProvider:
  assumes b: "getBinding s i k = Some b" and nn: "rf \<or> (\<forall>c ds. factory b c ds \<noteq> Inr Null)"
  shows "getByKey m i k rf False s \<noteq> Some (Inl (NoProviderError [k]), s')"
proof
  assume a: "getByKey m i k rf False s = Some (Inl (NoProviderError [k]), s')"
  then obtain n where m: "m = Suc n" by (cases m) simp_all
  with a have "getByKey_body (getByKey n) i k rf False s = Some (Inl (NoProviderError [k]), s')"
    by simp
  then show False
  proof (cases rule: getByKey_body_elim)
    case Cache
    from readFromCache_error[OF Cache(2)] show ?thesis by simp
  next
    case (Inst s1)
    note e = readFromCache_miss(1)[OF Inst(2)]
    have g: "\<And>k rf rl s s' e. getByKey n i k rf rl s = Some (Inl e, s') \<Longrightarrow> keys_of e \<noteq> []"
      by (rule getByKey_error_keys)
    from b e have "getBinding s1 i k = Some b" by simp
    from instantiate_bound_error[OF g Inst(3) this] show ?thesis by simp
  next
    case (Parent s1 s2 p)
    note e = readFromCache_miss(1)[OF Parent(2)]
    from instantiate_bound_null[OF Parent(3)] b e nn show ?thesis by auto
  next
    case (NoProvider s1)
    note e = readFromCache_miss(1)[OF NoProvider(2)]
    from instantiate_bound_null[OF NoProvider(3)] b e nn show ?thesis by auto
  qed simp
qed

text \<open>
  Claim C7, amended. For a key other than the injector's own token, in either mode:
  an injector that has no binding and an empty slot for the key hands the lookup to its
  parent, whose outcome is the outcome; when no injector up to the root has a binding,
  the lookup fails with the \<open>NoProviderError\<close> that names just this key and the store
  is unchanged; and when the first injector that has a binding has one whose factory does
  not return \<open>null\<close> (or the lookup is asynchronous), the lookup does not fail with the
  \<open>NoProviderError\<close> that names just this key.
\<close>

theorem NoProviderError_iff_unbound:
  assumes "ktoken k \<noteq> InjectorType"
  shows "(delegates s k js r \<longrightarrow>
            getByKey (length js + n) (hd (js @ [r])) k rf False s = getByKey n r k rf False s)
    \<and> (delegates s k js r \<and> getBinding s r k = None \<and> getInstance s r k = Value Null \<and>
         parent (injectors s r) = None \<longrightarrow>
            getByKey (Suc (length js)) (hd (js @ [r])) k rf False s
              = Some (Inl (NoProviderError [k]), s))
    \<and> (delegates s k js r \<and> getBinding s r k = Some b \<and>
         (rf \<or> (\<forall>c ds. factory b c ds \<noteq> Inr Null)) \<longrightarrow>
            getByKey m (hd (js @ [r])) k rf False s \<noteq> Some (Inl (NoProviderError [k]), s'))"
proof (intro conjI impI)
  assume "delegates s k js r"
  then show "getByKey (length js + n) (hd (js @ [r])) k rf False s = getByKey n r k rf False s"
    by (rule delegates_lookup[OF assms])
next
  assume a: "delegates s k js r \<and> getBinding s r k = None \<and> getInstance s r k = Value Null \<and>
         parent (injectors s r) = None"
  then have "getByKey (length js + Suc 0) (hd (js @ [r])) k rf False s = getByKey (Suc 0) r k rf False s"
    using delegates_lookup[OF assms] by blast
  with a root_unbound[OF _ _ _ assms, of s r 0 rf]
  show "getByKey (Suc (length js)) (hd (js @ [r])) k rf False s = Some (Inl (NoProviderError [k]), s)"
    by simp
next
  assume a: "delegates s k js r \<and> getBinding s r k = Some b \<and>
         (rf \<or> (\<forall>c ds. factory b c ds \<noteq> Inr Null))"
  show "getByKey m (hd (js @ [r])) k rf False s \<noteq> Some (Inl (NoProviderError [k]), s')"
  proof (cases "length js \<le> m")
    case True
    then obtain n where "m = length js + n" using le_Suc_ex by blast
    with a delegates_lookup[OF assms, of s js r n rf] bound_not_NoProvider[of s r k b rf n s']
    show ?thesis by simp
  next
    case False
    have "delegates s k js r \<Longrightarrow> m < length js \<Longrightarrow> getByKey m (hd (js @ [r])) k rf False s = None"
    proof (induction js arbitrary: m)
      case Nil
      then show ?case by simp
    next
      case (Cons i js)
      show ?case
      proof (cases m)
        case 0
        then show ?thesis by simp
      next
        case (Suc m')
        with Cons.prems have "getByKey (Suc m') i k rf False s = getByKey m' (hd (js @ [r])) k rf False s"
          using assms by (intro delegate_step) simp_all
        with Cons Suc show ?thesis by simp
      qed
    qed
    with a False show ?thesis by simp
  qed
qed

theorem NoProviderError_iff_unbound_witness:
  "getByKey (length [1::nat] + 1) (hd ([1] @ [0])) (ex_key 2) False False ex_plain_child
     = getByKey 1 0 (ex_key 2) False False ex_plain_child
   \<and> getByKey (Suc (length [1::nat])) (hd ([1] @ [0])) (ex_key 2) False False ex_plain_child
     = Some (Inl (NoProviderError [ex_key 2]), ex_plain_child)
   \<and> getByKey 2 (hd ([1] @ [0])) (ex_key 1) False False ex_plain_child
     \<noteq> Some (Inl (NoProviderError [ex_key 1]), ex_plain_child)"
proof -
  have t: "ktoken (ex_key 2) \<noteq> InjectorType" "ktoken (ex_key 1) \<noteq> InjectorType"
    by (simp_all add: ex_key_def)
  have d2: "delegates ex_plain_child (ex_key 2) [1] 0"
    by (simp add: getBinding_def getInstance_def ex_plain_child_def ex_world_def ex_injector_def
        createListOfBindings_def createInstances_def ex_key_def numeral_eq_Suc)
  have d1: "delegates ex_plain_child (ex_key 1) [1] 0"
    by (simp add: getBinding_def getInstance_def ex_plain_child_def ex_world_def ex_injector_def
        createListOfBindings_def createInstances_def ex_key_def numeral_eq_Suc)
  have r2: "getBinding ex_plain_child 0 (ex_key 2) = None"
    "getInstance ex_plain_child 0 (ex_key 2) = Value Null"
    "parent (injectors ex_plain_child 0) = None"
    by (simp_all add: getBinding_def getInstance_def ex_plain_child_def ex_world_def
        ex_injector_def createListOfBindings_def createInstances_def binding_set_def
        ex_binding_def ex_key_def numeral_eq_Suc)
  have r1: "getBinding ex_plain_child 0 (ex_key 1) = Some (ex_binding 1 [] ex_new)"
    by (simp add: getBinding_def ex_plain_child_def ex_world_def
        ex_injector_def createListOfBindings_def binding_set_def
        ex_binding_def ex_key_def numeral_eq_Suc)
  have nn: "\<forall>c ds. factory (ex_binding 1 [] ex_new) c ds \<noteq> Inr Null"
    by (simp add: ex_binding_def ex_new_def)
  from NoProviderError_iff_unbound[OF t(1), of ex_plain_child "[1]" 0 1 False] d2 r2
  have a: "getByKey (length [1::nat] + 1) (hd ([1] @ [0])) (ex_key 2) False False ex_plain_child
             = getByKey 1 0 (ex_key 2) False False ex_plain_child"
    and b: "getByKey (Suc (length [1::nat])) (hd ([1] @ [0])) (ex_key 2) False False ex_plain_child
     = Some (Inl (NoProviderError [ex_key 2]), ex_plain_child)"
    by blast+
  from NoProviderError_iff_unbound[OF t(2), of ex_plain_child "[1]" 0 1 False
      "ex_binding 1 [] ex_new" 2 ex_plain_child] d1 r1 nn
  have c: "getByKey 2 (hd ([1] @ [0])) (ex_key 1) False False ex_plain_child
     \<noteq> Some (Inl (NoProviderError [ex_key 1]), ex_plain_child)"
    by blast
  from a b c show ?thesis by (intro conjI)
qed

text \<open>
  Claim C7, as stated, fails. In \<open>ex_missing_dep\<close> the root binds key 1, and \<open>get\<close>
  fails with a \<open>NoProviderError\<close> (raised for the dependency, key 2, and annotated with
  key 1). In \<open>ex_null_root\<close> the root binds key 1 to a factory that returns \<open>null\<close>,
  and \<open>get\<close> fails with the \<open>NoProviderError\<close> naming key 1.
\<close>

theorem NoProviderError_bound_counterexample:
  "map_option bkey (getBinding ex_missing_dep 0 (ex_key 1)) = Some (ex_key 1)
   \<and> map_option fst (get 2 0 (ex_key 1) ex_missing_dep)
       = Some (Inl (NoProviderError [ex_key 2, ex_key 1]))
   \<and> map_option bkey (getBinding ex_null_root 0 (ex_key 1)) = Some (ex_key 1)
   \<and> map_option fst (get 1 0 (ex_key 1) ex_null_root) = Some (Inl (NoProviderError [ex_key 1]))"
  by code_simp

subsection \<open>Lookups from descendants\<close>

lemma delegates_above:
  assumes o: "ordered s"
  shows "delegates s k js r \<Longrightarrow> hd (js @ [r]) < allocated s \<Longrightarrow> \<forall>i \<in> set js. r < i"
proof (induction js)
  case Nil
  then show ?case by simp
next
  case (Cons i js)
  from Cons.prems have p: "parent (injectors s i) = Some (hd (js @ [r]))" and i: "i < allocated s"
    and d: "delegates s k js r"
    by simp_all
  from o i p have lt: "hd (js @ [r]) < i" by (auto simp: ordered_def split: option.splits)
  with i have "hd (js @ [r]) < allocated s" by simp
  from Cons.IH[OF d this] have ih: "\<forall>i \<in> set js. r < i" .
  have "r < i"
  proof (cases js)
    case Nil
    with lt show ?thesis by simp
  next
    case (Cons j js')
    with ih lt show ?thesis by auto
  qed
  with ih show ?case by simp
qed

lemma delegates_cong:
  "\<forall>i \<in> set js. injectors s' i = injectors s i \<Longrightarrow> delegates s' k js r = delegates s k js r"
  by (induction js) (auto simp: getBinding_def getInstance_def)

lemma get_bound_construct:
  assumes g: "get (Suc n) i k s = Some (Inr v, s')" and b: "getBinding s i k = Some b"
    and nn: "\<forall>c ds. factory b c ds \<noteq> Inr Null"
  shows "(sync_readFromCache i k s = Inr v \<and> s' = s)
    \<or> (\<exists>deps s2. sync_readFromCache i k s = Inr Null \<and> \<not> providedAsFuture b
          \<and> resolveDependencies (getByKey n) i k b False (markAsConstructing i k s)
              = Some (Inr deps, s2)
          \<and> factory b (length (calls s2)) (map Value deps) = Inr v
          \<and> s' = setInstance i k (Value v) (s2\<lparr>calls := calls s2 @ [(i, kid k)]\<rparr>))"
proof -
  from g have "getByKey_body (getByKey n) i k False False s = Some (Inr v, s')"
    by (simp add: get_def)
  then show ?thesis
  proof (cases rule: getByKey_body_elim)
    case Lazy
    then show ?thesis by simp
  next
    case Cache
    then have "sync_readFromCache i k s = Inr v" and "s' = s"
      by (auto simp: readFromCache_def)
    then show ?thesis by simp
  next
    case (Inst s1)
    note e = readFromCache_miss[OF Inst(2)]
    from Inst(2) have m: "sync_readFromCache i k s = Inr Null"
      by (auto simp: readFromCache_def)
    from Inst(3) e(1) have si: "sync_instantiate (getByKey n) i k s = Some (Inr v, s')"
      by (simp add: instantiate_def)
    from si b show ?thesis
    proof (cases rule: sync_instantiate_bound)
      case (Create deps s2)
      from Create(3) show ?thesis
      proof (cases rule: createInstance_cases)
        case (Ok v')
        with Create(1,2) m show ?thesis by auto
      qed simp
    qed simp_all
  next
    case (Parent s1 s2 p)
    note e = readFromCache_miss[OF Parent(2)]
    from Parent(3) e(1) have si: "sync_instantiate (getByKey n) i k s = Some (Inr Null, s2)"
      by (simp add: instantiate_def)
    from si b have False
    proof (cases rule: sync_instantiate_bound)
      case (Create deps s3)
      from Create(3) show ?thesis
        using nn by (cases rule: createInstance_cases) auto
    qed simp_all
    then show ?thesis ..
  next
    case (NoProvider s1)
    then show ?thesis by simp
  qed
qed

lemma ex_rebinding_binding:
  "i < 2 \<Longrightarrow> getBinding ex_rebinding i (ex_key 1) = Some (ex_binding 1 [] ex_new)"
  by (auto simp: getBinding_def ex_rebinding_def ex_world_def
      ex_injector_def createListOfBindings_def binding_set_def
      ex_binding_def ex_key_def numeral_eq_Suc less_Suc_eq)

text \<open>
  Claim C3, amended. Let \<open>r\<close> bind the key with a factory that does not return
  \<open>null\<close>, and let \<open>get\<close> on \<open>r\<close> succeed with \<open>v\<close>. Then \<open>get\<close> from a descendant
  whose chain of parents up to \<open>r\<close> binds the key nowhere gives the same outcome; after
  it, \<open>get\<close> from any other such descendant returns the same \<open>v\<close> and changes nothing.
  The instance is constructed and cached at \<open>r\<close>: \<open>v\<close> is not \<open>null\<close>, the slot of \<open>r\<close>
  holds it, the slots of the descendants stay empty, and either \<open>v\<close> was in the slot of
  \<open>r\<close> before and nothing changed, or the slot was empty and \<open>v\<close> is what the factory of
  the binding of \<open>r\<close> returned in this call, on the dependencies resolved from \<open>r\<close>, and
  the call ended by storing it in the slot of \<open>r\<close>. The injector \<open>r\<close> is any injector
  that binds the key: for a child that rebinds it, the child and its descendants get the
  instance built by the child's own factory and not the one of the ancestor.
\<close>

theorem parent_delegation:
  assumes t: "ktoken k \<noteq> InjectorType" and o: "ordered s" and ra: "r < allocated s"
    and b: "getBinding s r k = Some b" and nn: "\<forall>c ds. factory b c ds \<noteq> Inr Null"
    and g: "get (Suc n) r k s = Some (Inr v, s')"
    and p1: "delegates s k js1 r"
    and p2: "delegates s k js2 r" and a2: "hd (js2 @ [r]) < allocated s"
  shows "get (length js1 + Suc n) (hd (js1 @ [r])) k s = Some (Inr v, s')
    \<and> get (length js2 + Suc m) (hd (js2 @ [r])) k s' = Some (Inr v, s')
    \<and> getInstance s' r k = Value v \<and> v \<noteq> Null \<and> delegates s' k js2 r
    \<and> ((sync_readFromCache r k s = Inr v \<and> s' = s)
       \<or> (\<exists>deps s2. sync_readFromCache r k s = Inr Null \<and> \<not> providedAsFuture b
            \<and> resolveDependencies (getByKey n) r k b False (markAsConstructing r k s)
                = Some (Inr deps, s2)
            \<and> factory b (length (calls s2)) (map Value deps) = Inr v
            \<and> s' = setInstance r k (Value v) (s2\<lparr>calls := calls s2 @ [(r, kid k)]\<rparr>)))"
proof -
  from delegates_lookup[OF t p1, of "Suc n" False] g
  have 1: "get (length js1 + Suc n) (hd (js1 @ [r])) k s = Some (Inr v, s')"
    by (simp add: get_def)
  from get_bound_success[OF g b nn] have c: "sync_readFromCache r k s' = Inr v" and v: "v \<noteq> Null"
    by simp_all
  from c v t have 3: "getInstance s' r k = Value v"
    by (auto simp: sync_readFromCache_def split: inst.splits)
  from g have "frame_ok r s s'" unfolding get_def by (rule getByKey_frame)
  with o ra have "above_kept r s s'" by (simp add: frame_ok_def)
  with delegates_above[OF o p2 a2] have "\<forall>i \<in> set js2. injectors s' i = injectors s i"
    by (simp add: above_kept_def)
  from delegates_cong[OF this] p2 have 4: "delegates s' k js2 r" by simp
  from delegates_lookup[OF t this, of "Suc m" False] sync_hit[OF c v, of m]
  have 2: "get (length js2 + Suc m) (hd (js2 @ [r])) k s' = Some (Inr v, s')"
    by (simp add: get_def)
  note 5 = get_bound_construct[OF g b nn]
  from 1 2 3 v 4 5 show ?thesis by simp
qed

theorem parent_delegation_witness:
  "get (Suc 0) 0 (ex_key 1) ex_rebinding = Some (Inr (Obj 0), ex_rebinding_root)
   \<and> get (length [2::nat] + Suc 0) (hd ([2] @ [1])) (ex_key 1) ex_rebinding_root
       = Some (Inr (Obj 1), ex_rebinding_child)
   \<and> get (length [3::nat] + Suc 0) (hd ([3] @ [1])) (ex_key 1) ex_rebinding_child
       = Some (Inr (Obj 1), ex_rebinding_child)
   \<and> getInstance ex_rebinding_child 1 (ex_key 1) = Value (Obj 1)
   \<and> getInstance ex_rebinding_child 0 (ex_key 1) = Value (Obj 0)
   \<and> getInstance ex_rebinding_child 2 (ex_key 1) = Value Null
   \<and> getInstance ex_rebinding_child 3 (ex_key 1) = Value Null"
proof -
  have t: "ktoken (ex_key 1) \<noteq> InjectorType" by (simp add: ex_key_def)
  have nn: "\<forall>c ds. factory (ex_binding 1 [] ex_new) c ds \<noteq> Inr Null"
    by (simp add: ex_binding_def ex_new_def)
  have c0: "sync_readFromCache 0 (ex_key 1) ex_rebinding = Inr Null"
    by (simp add: sync_readFromCache_def getInstance_def ex_rebinding_def ex_world_def
        ex_injector_def createInstances_def ex_key_def numeral_eq_Suc)
  have cs: "calls ex_rebinding = []" by (simp add: ex_rebinding_def ex_world_def)
  have g0: "get (Suc 0) 0 (ex_key 1) ex_rebinding = Some (Inr (Obj 0), ex_rebinding_root)"
    using get_no_dependencies[OF c0 ex_rebinding_binding, of "Obj 0" 0] cs
    by (simp add: ex_binding_def ex_new_def ex_key_def ex_rebinding_root_def)
  have o: "ordered ex_rebinding_root"
    by (auto simp: ordered_def ex_rebinding_root_def ex_rebinding_def ex_world_def ex_injector_def
        less_Suc_eq numeral_eq_Suc setInstance_def)
  have ra: "1 < allocated ex_rebinding_root" "hd ([3] @ [1]) < allocated ex_rebinding_root"
    by (simp_all add: ex_rebinding_root_def ex_rebinding_def ex_world_def setInstance_def)
  have b: "getBinding ex_rebinding_root 1 (ex_key 1) = Some (ex_binding 1 [] ex_new)"
    using ex_rebinding_binding[of 1]
    by (simp add: ex_rebinding_root_def getBinding_def setInstance_def split: if_splits)
  have c1: "sync_readFromCache 1 (ex_key 1) ex_rebinding_root = Inr Null"
    by (simp add: sync_readFromCache_def getInstance_def ex_rebinding_root_def ex_rebinding_def
        ex_world_def ex_injector_def createInstances_def ex_key_def numeral_eq_Suc setInstance_def)
  have cs1: "calls ex_rebinding_root = [(0, 1)]"
    by (simp add: ex_rebinding_root_def ex_rebinding_def ex_world_def)
  have g: "get (Suc 0) 1 (ex_key 1) ex_rebinding_root = Some (Inr (Obj 1), ex_rebinding_child)"
    using get_no_dependencies[OF c1 b, of "Obj 1" 0] cs1
    by (simp add: ex_binding_def ex_new_def ex_key_def ex_rebinding_child_def)
  have d1: "delegates ex_rebinding_root (ex_key 1) [2] 1"
    by (simp add: getBinding_def getInstance_def ex_rebinding_root_def ex_rebinding_def
        ex_world_def ex_injector_def setInstance_def
        createListOfBindings_def createInstances_def ex_key_def numeral_eq_Suc)
  have d2: "delegates ex_rebinding_root (ex_key 1) [3] 1"
    by (simp add: getBinding_def getInstance_def ex_rebinding_root_def ex_rebinding_def
        ex_world_def ex_injector_def setInstance_def
        createListOfBindings_def createInstances_def ex_key_def numeral_eq_Suc)
  have "getInstance ex_rebinding_child 0 (ex_key 1)
          = getInstance (ex_rebinding_root\<lparr>calls := calls ex_rebinding_root @ [(1, 1)]\<rparr>) 0 (ex_key 1)"
    by (simp add: ex_rebinding_child_def getInstance_setInstance_other)
  also have "\<dots> = getInstance ex_rebinding_root 0 (ex_key 1)"
    by (simp add: getInstance_def)
  also have "\<dots> = Value (Obj 0)"
    by (simp add: ex_rebinding_root_def)
  finally have r0: "getInstance ex_rebinding_child 0 (ex_key 1) = Value (Obj 0)" .
  from parent_delegation[OF t o ra(1) b nn g d1 d2 ra(2), of 0]
  have "get (length [2::nat] + Suc 0) (hd ([2] @ [1])) (ex_key 1) ex_rebinding_root
       = Some (Inr (Obj 1), ex_rebinding_child)
   \<and> get (length [3::nat] + Suc 0) (hd ([3] @ [1])) (ex_key 1) ex_rebinding_child
       = Some (Inr (Obj 1), ex_rebinding_child)
   \<and> getInstance ex_rebinding_child 1 (ex_key 1) = Value (Obj 1)
   \<and> delegates ex_rebinding_child (ex_key 1) [3] 1" by blast
  moreover have "getInstance ex_rebinding_child 2 (ex_key 1) = Value Null"
    by (simp add: getInstance_def ex_rebinding_child_def ex_rebinding_root_def ex_rebinding_def
        ex_world_def ex_injector_def setInstance_def createInstances_def ex_key_def numeral_eq_Suc)
  ultimately show ?thesis using g0 r0 by simp
qed

text \<open>
  Claim C3, as stated, fails. In \<open>ex_null_child\<close> the child rebinds key 1 (to a factory
  returning \<open>null\<close>); \<open>get\<close> on the child returns the object held in the root's slot,
  and the child's slot is empty.
\<close>

theorem null_rebinding_counterexample:
  "map_option bkey (getBinding ex_null_child 1 (ex_key 1)) = Some (ex_key 1)
   \<and> map_option (\<lambda>(r, s). (r, getInstance s 0 (ex_key 1), getInstance s 1 (ex_key 1)))
        (get 2 1 (ex_key 1) ex_null_child)
       = Some (Inr (Obj 1), Value (Obj 1), Value Null)"
  by code_simp

subsection \<open>A rule for properties kept by a lookup\<close>

text \<open>
  A relation between stores that is reflexive and transitive, and that every single
  write of the lookup respects, holds between the store before and after a lookup. The
  writes to a slot may rely on a condition \<open>D\<close> that follows from the cache miss.
\<close>

lemma getByKey_rel:
  assumes refl: "\<And>s. P s s" and trans: "\<And>a b c. P a b \<Longrightarrow> P b c \<Longrightarrow> P a c"
    and miss: "\<And>rf j (k::key) s s1 s'. readFromCache rf j k s = (Inr Null, s1) \<Longrightarrow> D j k \<or> P s s'"
    and wr: "\<And>j (k::key) x s. D j k \<Longrightarrow> P s (setInstance j k x s)"
    and cl: "\<And>j (k::key) s. D j k \<Longrightarrow> P s (s\<lparr>calls := calls s @ [(j, kid k)]\<rparr>)"
    and ft: "\<And>st s. P s (s\<lparr>futures := futures s @ [st]\<rparr>)"
    and tk: "\<And>j (k::key) b deps s. D j k \<Longrightarrow>
        P s (s\<lparr>futures := futures s @ [Pending],
               tasks := tasks s @ [\<lparr>t_injector = j, t_key = k, t_binding = b, t_deps = deps,
                         t_future = length (futures s), t_phase = AwaitDeps\<rparr>]\<rparr>)"
  shows "getByKey n j k rf rl s = Some (r, s') \<Longrightarrow> P s s'"
proof (induction n arbitrary: j k rf rl s r s')
  case 0
  then show ?case by simp
next
  case (Suc n)
  note g = Suc.IH
  have resolve: "P s s'" if d: "D j k" and r: "resolveDependencies (getByKey n) j k b fa s = Some (r, s')"
    for j k b fa s r s'
  proof -
    from r obtain r1 s1 where gd: "getDependencies (getByKey n) j fa (dependencies b) s = Some (r1, s1)"
      by (auto simp: resolveDependencies_def split: option.splits)
    have p: "P s s1"
      by (rule getDependencies_rel[where P=P, OF refl trans g gd])
    show ?thesis
    proof (cases r1)
      case (Inl e)
      with r gd have "s' = clear j k s1" by (simp add: resolveDependencies_def)
      with trans[OF p wr[OF d]] show ?thesis by (simp add: clear_def)
    next
      case (Inr v)
      with r gd have "s' = s1" by (simp add: resolveDependencies_def)
      with p show ?thesis by simp
    qed
  qed
  have create: "P s s'" if d: "D j k" and c: "createInstance j k b deps s = (r, s')"
    for j k b deps s r s'
  proof -
    have "P s (setInstance j k x (s\<lparr>calls := calls s @ [(j, kid k)]\<rparr>))" for x
      using trans[OF cl[OF d] wr[OF d]] .
    with c show ?thesis
      by (auto simp: createInstance_def Let_def clear_def split: sum.splits)
  qed
  have mark: "P s (markAsConstructing j k s)" if "D j k" for j k s
    unfolding markAsConstructing_def by (rule wr[OF that])
  have inst: "P s s'" if d: "D j k" and r: "instantiate (getByKey n) rf j k s = Some (r, s')"
    for j k rf s r s'
  proof (cases "getBinding s j k")
    case None
    from instantiate_unbound[OF None] r refl show ?thesis by simp
  next
    case (Some b)
    show ?thesis
    proof (cases rf)
      case True
      with r have "async_instantiate (getByKey n) j k s = Some (r, s')" by (simp add: instantiate_def)
      from this Some show ?thesis
      proof (cases rule: async_instantiate_bound)
        case (DepError e)
        from trans[OF mark[OF d] resolve[OF d DepError(1)]] show ?thesis .
      next
        case (Pending deps s2)
        note p2 = trans[OF mark[OF d] resolve[OF d Pending(1)]]
        from trans[OF tk[OF d] wr[OF d]] Pending(3) have "P s2 s'" by simp
        from trans[OF p2 this] show ?thesis .
      qed
    next
      case False
      with r have "sync_instantiate (getByKey n) j k s = Some (r, s')" by (simp add: instantiate_def)
      from this Some show ?thesis
      proof (cases rule: sync_instantiate_bound)
        case Async
        with refl show ?thesis by simp
      next
        case (DepError e)
        from trans[OF mark[OF d] resolve[OF d DepError(2)]] show ?thesis .
      next
        case (Create deps s2)
        from trans[OF trans[OF mark[OF d] resolve[OF d Create(2)]] create[OF d Create(3)]]
        show ?thesis .
      qed
    qed
  qed
  have cache: "P s s'" if "readFromCache rf j k s = (r, s')" for rf j k s r s'
    using that refl ft
    by (auto simp: readFromCache_def async_readFromCache_def future_value_def
        split: if_splits inst.splits val.splits)
  from Suc.prems have b: "getByKey_body (getByKey n) j k rf rl s = Some (r, s')" by simp
  from b show ?case
  proof (cases rule: getByKey_body_elim)
    case Lazy
    with refl show ?thesis by simp
  next
    case Cache
    then show ?thesis by (simp add: cache)
  next
    case (Inst s1)
    note e = readFromCache_miss(1)[OF Inst(2)]
    from miss[OF Inst(2), of s'] show ?thesis
    proof
      assume "D j k"
      from inst[OF this Inst(3)] e show ?thesis by simp
    qed
  next
    case (Parent s1 s2 p)
    note e = readFromCache_miss(1)[OF Parent(2)]
    from miss[OF Parent(2), of s'] show ?thesis
    proof
      assume "D j k"
      from inst[OF this Parent(3)] e have "P s s2" by simp
      from trans[OF this g[OF Parent(5)]] show ?thesis .
    qed
  next
    case (NoProvider s1)
    note e = readFromCache_miss(1)[OF NoProvider(2)]
    from miss[OF NoProvider(2), of s'] show ?thesis
    proof
      assume "D j k"
      from inst[OF this NoProvider(3)] e show ?thesis by simp
    qed
  qed
qed



subsection \<open>The callbacks of one construction\<close>

text \<open>
  Whatever the order in which callbacks run and computations handed out by factories
  settle, the task that constructs a slot calls the factory of that slot at most once,
  provided no other unfinished task constructs the same slot.
\<close>

lemma set_phase_fields [simp]:
  "getInstance (set_phase j ph s) i k = getInstance s i k"
  "futures (set_phase j ph s) = futures s"
  "factory_calls i k (set_phase j ph s) = factory_calls i k s"
  "length (tasks (set_phase j ph s)) = length (tasks s)"
  by (simp_all add: set_phase_def getInstance_def factory_calls_def)


lemma settle_fields [simp]:
  "getInstance (settle f st s) i k = getInstance s i k"
  "tasks (settle f st s) = tasks s"
  "factory_calls i k (settle f st s) = factory_calls i k s"
  "length (futures (settle f st s)) = length (futures s)"
  by (simp_all add: settle_def getInstance_def factory_calls_def)


lemma call_fields [simp]:
  "getInstance (s\<lparr>calls := c\<rparr>) i k = getInstance s i k"
  "factory_calls i k (s\<lparr>calls := calls s @ [(i', n)]\<rparr>)
     = (if i' = i \<and> n = kid k then Suc (factory_calls i k s) else factory_calls i k s)"
  by (simp_all add: getInstance_def factory_calls_def)
















subsection \<open>Two asynchronous lookups of one key\<close>







subsection \<open>A factory that returns null\<close>

lemma getInstance_injector:
  "injectors s' i = injectors s i \<Longrightarrow> getInstance s' i k = getInstance s i k"
  by (simp add: getInstance_def)

lemma getBinding_bindings:
  "bindings (injectors s' i) = bindings (injectors s i) \<Longrightarrow> getBinding s' i k = getBinding s i k"
  by (simp add: getBinding_def)

lemma null_factory_get:
  assumes o: "ordered s" and ia: "i < allocated s"
    and miss: "sync_readFromCache i k s = Inr Null"
    and b: "getBinding s i k = Some b" and p: "\<not> providedAsFuture b"
    and nullf: "\<forall>c ds. factory b c ds = Inr Null"
    and g: "get (Suc n) i k s = Some (r, s')"
  shows "getInstance s' i k = Value Null \<and> sync_readFromCache i k s' = Inr Null
    \<and> ordered s' \<and> allocated s' = allocated s \<and> getBinding s' i k = Some b
    \<and> factory_calls i k s' \<le> Suc (factory_calls i k s)
    \<and> (case r of
          Inr v \<Rightarrow>
            factory_calls i k s' = Suc (factory_calls i k s) \<and>
            (\<exists>q s2. parent (injectors s i) = Some q \<and>
                    getByKey n q k False False s2 = Some (Inr v, s'))
        | Inl e \<Rightarrow> True)"
proof -
  from miss have t: "ktoken k \<noteq> InjectorType"
    by (auto simp: sync_readFromCache_def split: if_splits)
  have rc: "readFromCache False i k s = (Inr Null, s)"
    using miss by (simp add: readFromCache_def)
  have gf: "\<And>k rf rl s r s'. getByKey n i k rf rl s = Some (r, s') \<Longrightarrow> frame_ok i s s'"
    by (rule getByKey_frame)
  have empty: "sync_readFromCache i k x = Inr Null" if "getInstance x i k = Value Null" for x
    using that t by (simp add: sync_readFromCache_def)
  \<comment> \<open>what instantiate does when the dependencies resolve\<close>
  have created: "getInstance s2 i k = Value Null \<and> factory_calls i k s2 = Suc (factory_calls i k s)
      \<and> above_kept i s s2 \<and> r2 = Inr Null"
    if si: "sync_instantiate (getByKey n) i k s = Some (r2, s2)" and nd: "\<forall>e. r2 \<noteq> Inl e"
    for r2 s2
    using si b
  proof (cases rule: sync_instantiate_bound)
    case Async
    with p show ?thesis by simp
  next
    case (DepError e)
    with nd show ?thesis by simp
  next
    case (Create deps s3)
    have "marker_kept i k (markAsConstructing i k s) s3"
      by (rule getDependencies_rel[where P="marker_kept i k", OF marker_kept_refl
            marker_kept_trans getByKey_marker resolveDependencies_ok[OF Create(2)]])
    then have c3: "factory_calls i k s3 = factory_calls i k s"
      by (simp add: marker_kept_def markAsConstructing_def)
    from sync_instantiate_frame[OF gf si] o ia have ak: "above_kept i s s2"
      by (simp add: frame_ok_def)
    from Create(3) show ?thesis
    proof (cases rule: createInstance_cases)
      case (Ok v')
      with nullf have "v' = Null" by simp
      with Ok c3 ak show ?thesis by simp
    next
      case (Throw c)
      with nullf show ?thesis by simp
    qed
  qed
  from g have "getByKey_body (getByKey n) i k False False s = Some (r, s')"
    by (simp add: get_def)
  then show ?thesis
  proof (cases rule: getByKey_body_elim)
    case Lazy
    then show ?thesis by simp
  next
    case Cache
    with rc show ?thesis by simp
  next
    case (Inst s1)
    with rc have si: "sync_instantiate (getByKey n) i k s = Some (r, s')" and ne: "r \<noteq> Inr Null"
      by (simp_all add: instantiate_def)
    from si b show ?thesis
    proof (cases rule: sync_instantiate_bound)
      case Async
      with p show ?thesis by simp
    next
      case (DepError e)
      from DepError(2) obtain e1 s1' where
        gd: "getDependencies (getByKey n) i False (dependencies b) (markAsConstructing i k s)
               = Some (Inl e1, s1')" and s': "s' = clear i k s1'"
        by (auto simp: resolveDependencies_def split: option.splits sum.splits)
      have "marker_kept i k (markAsConstructing i k s) s1'"
        by (rule getDependencies_rel[where P="marker_kept i k", OF marker_kept_refl
              marker_kept_trans getByKey_marker gd])
      then have c: "factory_calls i k s1' = factory_calls i k s"
        by (simp add: marker_kept_def markAsConstructing_def)
      from sync_instantiate_frame[OF gf si] o ia have ak: "above_kept i s s'"
        by (simp add: frame_ok_def)
      have sl: "getInstance s' i k = Value Null" by (simp add: s' clear_def)
      from ak b have "getBinding s' i k = Some b"
        using getBinding_bindings[of s' i s k] by (simp add: above_kept_def)
      with sl empty[OF sl] ordered_above[OF o ak] ak c DepError(3) show ?thesis
        by (simp add: s' clear_def above_kept_def)
    next
      case (Create deps s3)
      from Create(3) have False
      proof (cases rule: createInstance_cases)
        case (Ok v')
        with nullf ne show ?thesis by simp
      next
        case (Throw c)
        with nullf show ?thesis by simp
      qed
      then show ?thesis ..
    qed
  next
    case (Parent s1 s2 q)
    with rc have si: "sync_instantiate (getByKey n) i k s = Some (Inr Null, s2)"
      by (simp add: instantiate_def)
    from created[OF si] have sl2: "getInstance s2 i k = Value Null"
      and c2: "factory_calls i k s2 = Suc (factory_calls i k s)" and ak: "above_kept i s s2"
      by simp_all
    from ordered_above[OF o ak] have o2: "ordered s2" .
    from ak have al2: "allocated s2 = allocated s"
      and par: "parent (injectors s i) = Some q"
      using Parent(4) by (simp_all add: above_kept_def)
    from o ia par have qi: "q < i" by (auto simp: ordered_def split: option.splits)
    from getByKey_frame[OF Parent(5)] o2 qi ia al2 have akq: "above_kept q s2 s'"
      by (simp add: frame_ok_def)
    from akq qi have inj: "injectors s' i = injectors s2 i"
      and c': "factory_calls i k s' = factory_calls i k s2"
      by (simp_all add: above_kept_def)
    from getInstance_injector[OF inj] sl2 have sl: "getInstance s' i k = Value Null" by simp
    from akq ak b have bb: "getBinding s' i k = Some b"
      using getBinding_bindings[of s' i s k] by (simp add: above_kept_def)
    from akq al2 have al: "allocated s' = allocated s" by (simp add: above_kept_def)
    have "case r of
          Inr v \<Rightarrow>
            factory_calls i k s' = Suc (factory_calls i k s) \<and>
            (\<exists>q s2. parent (injectors s i) = Some q \<and>
                    getByKey n q k False False s2 = Some (Inr v, s'))
        | Inl e \<Rightarrow> True"
      using c' c2 par Parent(5) by (auto split: sum.splits)
    with sl empty[OF sl] ordered_above[OF o2 akq] al bb c' c2 show ?thesis by simp
  next
    case (NoProvider s1)
    with rc have si: "sync_instantiate (getByKey n) i k s = Some (Inr Null, s')"
      by (simp add: instantiate_def)
    from created[OF si] have sl: "getInstance s' i k = Value Null"
      and c2: "factory_calls i k s' = Suc (factory_calls i k s)" and ak: "above_kept i s s'"
      by simp_all
    from ak b have bb: "getBinding s' i k = Some b"
      using getBinding_bindings[of s' i s k] by (simp add: above_kept_def)
    from ak have al: "allocated s' = allocated s" by (simp add: above_kept_def)
    from sl empty[OF sl] ordered_above[OF o ak] al bb c2 NoProvider(5) show ?thesis by simp
  qed
qed

text \<open>
  Claim C6, as stated, fails. In \<open>ex_null_child\<close> the child's factory for key 1 returns
  \<open>null\<close>: the first \<open>get\<close> on the child calls it, leaves the child's slot empty and
  returns the root's object; the second \<open>get\<close> is again a miss on the child and calls
  the child's factory a second time.
\<close>

theorem null_value_counterexample:
  "observe (get 2 1 (ex_key 1) ex_null_child) 1 (ex_key 1)
     = Some (Inr (Obj 1), Value Null, [(1, 1), (0, 1)])
   \<and> observe (and_then (get 2 1 (ex_key 1) ex_null_child) (get 2 1 (ex_key 1))) 1 (ex_key 1)
     = Some (Inr (Obj 1), Value Null, [(1, 1), (0, 1), (1, 1)])"
  by code_simp

text \<open>
  Claim C6, amended. A \<open>null\<close> result is the empty slot. Let the injector (in a store
  where parents have smaller addresses) have a synchronous binding for the key whose
  factory returns \<open>null\<close>, and let \<open>get\<close> miss the cache and return a value. Then the
  call has run the factory once, the value is the outcome of the lookup on the parent,
  and in the store that \<open>get\<close> leaves the slot is empty, so that the next cache read is
  a miss; and every further \<open>get\<close> that returns a value has called the factory once
  more and leaves the slot empty again.
\<close>

theorem null_factory_result_is_empty:
  assumes o: "ordered s" and ia: "i < allocated s"
    and miss: "sync_readFromCache i k s = Inr Null"
    and b: "getBinding s i k = Some b" and p: "\<not> providedAsFuture b"
    and nullf: "\<forall>c ds. factory b c ds = Inr Null"
    and g: "get (Suc n) i k s = Some (Inr v, s')"
  shows "getInstance s' i k = Value Null \<and> sync_readFromCache i k s' = Inr Null
    \<and> factory_calls i k s' = Suc (factory_calls i k s)
    \<and> (\<exists>q s2. parent (injectors s i) = Some q \<and>
               getByKey n q k False False s2 = Some (Inr v, s'))
    \<and> (\<forall>m v2 s''. get (Suc m) i k s' = Some (Inr v2, s'') \<longrightarrow>
          factory_calls i k s'' = Suc (factory_calls i k s') \<and>
          getInstance s'' i k = Value Null)"
proof -
  from null_factory_get[OF o ia miss b p nullf g]
  have 1: "getInstance s' i k = Value Null" "sync_readFromCache i k s' = Inr Null"
    "ordered s'" "allocated s' = allocated s" "getBinding s' i k = Some b"
    "factory_calls i k s' = Suc (factory_calls i k s)"
    "\<exists>q s2. parent (injectors s i) = Some q \<and> getByKey n q k False False s2 = Some (Inr v, s')"
    by simp_all
  from 1(4) ia have ia': "i < allocated s'" by simp
  have 2: "factory_calls i k s'' = Suc (factory_calls i k s') \<and> getInstance s'' i k = Value Null"
    if "get (Suc m) i k s' = Some (Inr v2, s'')" for m v2 s''
    using null_factory_get[OF 1(3) ia' 1(2) 1(5) p nullf that] by simp
  from 1 2 show ?thesis by blast
qed

theorem null_factory_result_is_empty_witness:
  "get (Suc 1) 1 (ex_key 1) ex_null_child = Some (Inr (Obj 1), ex_null_child_after)
   \<and> getInstance ex_null_child_after 1 (ex_key 1) = Value Null
   \<and> factory_calls 1 (ex_key 1) ex_null_child_after
       = Suc (factory_calls 1 (ex_key 1) ex_null_child)
   \<and> get (Suc 1) 1 (ex_key 1) ex_null_child_after = Some (Inr (Obj 1), ex_null_child_again)
   \<and> factory_calls 1 (ex_key 1) ex_null_child_again
       = Suc (factory_calls 1 (ex_key 1) ex_null_child_after)"
proof -
  have "map_option fst (get (Suc 1) 1 (ex_key 1) ex_null_child) = Some (Inr (Obj 1))"
    by code_simp
  then obtain s1 where "get (Suc 1) 1 (ex_key 1) ex_null_child = Some (Inr (Obj 1), s1)"
    by auto
  then have g: "get (Suc 1) 1 (ex_key 1) ex_null_child = Some (Inr (Obj 1), ex_null_child_after)"
    by (simp add: ex_null_child_after_def)
  have "map_option fst (get (Suc 1) 1 (ex_key 1) ex_null_child_after) = Some (Inr (Obj 1))"
    by code_simp
  then obtain s2 where "get (Suc 1) 1 (ex_key 1) ex_null_child_after = Some (Inr (Obj 1), s2)"
    by auto
  then have g2: "get (Suc 1) 1 (ex_key 1) ex_null_child_after
                   = Some (Inr (Obj 1), ex_null_child_again)"
    by (simp add: ex_null_child_again_def)
  have o: "ordered ex_null_child"
    by (auto simp: ordered_def ex_null_child_def ex_world_def ex_injector_def less_Suc_eq
        numeral_eq_Suc)
  have ia: "1 < allocated ex_null_child" by (simp add: ex_null_child_def ex_world_def)
  have miss: "sync_readFromCache 1 (ex_key 1) ex_null_child = Inr Null"
    by (simp add: sync_readFromCache_def getInstance_def ex_null_child_def ex_world_def
        ex_injector_def createInstances_def ex_key_def numeral_eq_Suc)
  have b: "getBinding ex_null_child 1 (ex_key 1) = Some (ex_binding 1 [] ex_null)"
    by (simp add: getBinding_def ex_null_child_def ex_world_def ex_injector_def
        createListOfBindings_def binding_set_def ex_binding_def ex_key_def numeral_eq_Suc)
  have p: "\<not> providedAsFuture (ex_binding 1 [] ex_null)" by (simp add: ex_binding_def)
  have nullf: "\<forall>c ds. factory (ex_binding 1 [] ex_null) c ds = Inr Null"
    by (simp add: ex_binding_def ex_null_def)
  note th = null_factory_result_is_empty[OF o ia miss b p nullf g]
  from th have 1: "getInstance ex_null_child_after 1 (ex_key 1) = Value Null"
    "factory_calls 1 (ex_key 1) ex_null_child_after = Suc (factory_calls 1 (ex_key 1) ex_null_child)"
    by blast+
  from th g2 have 2: "factory_calls 1 (ex_key 1) ex_null_child_again
       = Suc (factory_calls 1 (ex_key 1) ex_null_child_after)"
    by blast
  from g 1 g2 2 show ?thesis by (intro conjI)
qed

subsection \<open>Cyclic dependencies\<close>

lemma getDependencies_append_error:
  assumes "getDependencies g i fa pre s = Some (Inr vs, s1)"
    and "g i (dkey d) (fa \<or> asFuture d) (lazy d) s1 = Some (Inl e, s2)"
  shows "getDependencies g i fa (pre @ d # post) s = Some (Inl e, s2)"
  using assms
proof (induction pre arbitrary: s vs)
  case Nil
  then show ?case by simp
next
  case (Cons a pre)
  from Cons.prems(1) obtain v s0 vs0 where
    a: "g i (dkey a) (fa \<or> asFuture a) (lazy a) s = Some (Inr v, s0)"
    and r: "getDependencies g i fa pre s0 = Some (Inr vs0, s1)"
    by (auto split: option.splits sum.splits prod.splits)
  from Cons.IH[OF r Cons.prems(2)] a show ?case by simp
qed

lemma constructing_hit:
  assumes "getInstance s i k = Constructing" and "ktoken k \<noteq> InjectorType"
  shows "getByKey (Suc n) i k rf False s = Some (Inl (CyclicDependencyError [k]), s)"
  using assms
  by (simp add: getByKey_body_def readFromCache_def sync_readFromCache_def async_readFromCache_def)

lemma miss_unchanged:
  assumes "fst (readFromCache rf i k s) = Inr Null"
  shows "readFromCache rf i k s = (Inr Null, s)"
proof -
  obtain s1 where r: "readFromCache rf i k s = (Inr Null, s1)"
    using assms by (cases "readFromCache rf i k s") simp
  from readFromCache_miss(1)[OF r] r show ?thesis by simp
qed

lemma unbound_step:
  assumes "fst (readFromCache rf i k s) = Inr Null" and "getBinding s i k = None"
    and "parent (injectors s i) = Some p"
  shows "getByKey (Suc n) i k rf False s = getByKey n p k rf False s"
  using miss_unchanged[OF assms(1)] assms(2,3)
  by (simp add: getByKey_body_def instantiate_def isPresent_def sync_instantiate_def
      async_instantiate_def)

lemma dependency_error_step:
  assumes miss: "fst (readFromCache rf i k s) = Inr Null" and b: "getBinding s i k = Some b"
    and p: "rf \<or> \<not> providedAsFuture b"
    and m: "m < length (dependencies b)" and nl: "\<not> lazy (dependencies b ! m)"
    and pre: "getDependencies g i rf (take m (dependencies b)) (markAsConstructing i k s)
                = Some (Inr vs, s1)"
    and d: "g i (dkey (dependencies b ! m)) (rf \<or> asFuture (dependencies b ! m)) False s1
              = Some (Inl e, s2)"
  shows "getByKey_body g i k rf False s = Some (Inl (addKey e k), clear i k s2)"
proof -
  from d nl have d': "g i (dkey (dependencies b ! m)) (rf \<or> asFuture (dependencies b ! m))
      (lazy (dependencies b ! m)) s1 = Some (Inl e, s2)" by simp
  have "getDependencies g i rf (take m (dependencies b) @ dependencies b ! m # drop (Suc m) (dependencies b))
          (markAsConstructing i k s) = Some (Inl e, s2)"
    by (rule getDependencies_append_error[OF pre d'])
  with m have "getDependencies g i rf (dependencies b) (markAsConstructing i k s) = Some (Inl e, s2)"
    by (simp add: id_take_nth_drop[symmetric])
  then have r: "resolveDependencies g i k b rf (markAsConstructing i k s)
                  = Some (Inl (addKey e k), clear i k s2)"
    by (simp add: resolveDependencies_def)
  have "instantiate g rf i k s = Some (Inl (addKey e k), clear i k s2)"
  proof (cases rf)
    case True
    with r b show ?thesis by (simp add: instantiate_def async_instantiate_def)
  next
    case False
    with r b p show ?thesis by (simp add: instantiate_def sync_instantiate_def)
  qed
  with miss_unchanged[OF miss] show ?thesis
    by (simp add: getByKey_body_def isPresent_def)
qed

lemma getByKey_bindings:
  assumes "getByKey n j k rf rl s = Some (r, s')"
  shows "bindings (injectors s' j') = bindings (injectors s j')"
proof -
  have "(\<lambda>s s'. \<forall>j. bindings (injectors s' j) = bindings (injectors s j)) s s'"
    by (rule getByKey_rel[where D="\<lambda>j k. True" and P="\<lambda>s s'. \<forall>j. bindings (injectors s' j) = bindings (injectors s j)",
          OF _ _ _ _ _ _ _ assms])
      (simp_all add: setInstance_def)
  then show ?thesis by simp
qed

lemma getDependencies_bindings:
  assumes "getDependencies (getByKey n) j fa ds s = Some (r, s')"
  shows "bindings (injectors s' j') = bindings (injectors s j')"
proof -
  have "(\<lambda>s s'. \<forall>j. bindings (injectors s' j) = bindings (injectors s j)) s s'"
    by (rule getDependencies_rel[where P="\<lambda>s s'. \<forall>j. bindings (injectors s' j) = bindings (injectors s j)",
          OF _ _ _ assms])
      (auto dest: getByKey_bindings)
  then show ?thesis by simp
qed

lemma getDependencies_constructing:
  assumes "getDependencies (getByKey n) j fa ds s = Some (r, s')"
    and "getInstance s i k = Constructing"
  shows "getInstance s' i k = Constructing"
proof -
  have "marker_kept i k s s'"
    by (rule getDependencies_rel[where P="marker_kept i k", OF marker_kept_refl
          marker_kept_trans getByKey_marker assms(1)])
  with assms(2) show ?thesis by (simp add: marker_kept_def)
qed

lemma cycle_chain_closes:
  "cycle_chain n st i k rf s hs = Some fs \<Longrightarrow>
   (\<forall>j x. (j, kid x) \<in> set st \<longrightarrow> getInstance s j x = Constructing) \<Longrightarrow>
   \<exists>s'. getByKey (Suc n) i k rf False s
           = Some (Inl (CyclicDependencyError (rev (map snd fs))), s')
      \<and> (\<forall>j x. (j, kid x) \<in> set st \<longrightarrow> getInstance s' j x = Constructing)
      \<and> (\<forall>j x. (j, x) \<in> set fs \<longrightarrow> (j, kid x) \<notin> set st \<longrightarrow> getInstance s' j x = Value Null)
      \<and> (\<forall>j. bindings (injectors s' j) = bindings (injectors s j))"
proof (induction hs arbitrary: n st i k rf s fs)
  case Nil
  then have t: "ktoken k \<noteq> InjectorType" and m: "(i, kid k) \<in> set st" and fs: "fs = [(i, k)]"
    by (auto split: if_splits)
  from Nil.prems(2) m have "getInstance s i k = Constructing" by blast
  from constructing_hit[OF this t, of n rf] fs Nil.prems(2) m show ?case by auto
next
  case (Cons h hs)
  from Cons.prems(1) obtain n' where n: "n = Suc n'" by (cases n) auto
  show ?case
  proof (cases h)
    case ViaParent
    with Cons.prems(1) n obtain p where miss: "fst (readFromCache rf i k s) = Inr Null"
      and nb: "getBinding s i k = None" and p: "parent (injectors s i) = Some p"
      and c: "cycle_chain n' st p k rf s hs = Some fs"
      by (auto split: if_splits option.splits)
    from Cons.IH[OF c Cons.prems(2)] unbound_step[OF miss nb p, of n] n
    show ?thesis by simp
  next
    case (ViaDependency m)
    let ?s0 = "markAsConstructing i k s"
    from Cons.prems(1) n ViaDependency obtain b vs s1 fs0 where
      miss: "fst (readFromCache rf i k s) = Inr Null" and b: "getBinding s i k = Some b"
      and p: "rf \<or> \<not> providedAsFuture b" and m: "m < length (dependencies b)"
      and nl: "\<not> lazy (dependencies b ! m)"
      and pre: "getDependencies (getByKey (Suc n')) i rf (take m (dependencies b)) ?s0
                  = Some (Inr vs, s1)"
      and c: "cycle_chain n' ((i, kid k) # st) i (dkey (dependencies b ! m))
                (rf \<or> asFuture (dependencies b ! m)) s1 hs = Some fs0"
      and fs: "fs = (i, k) # fs0"
      by (auto split: if_splits option.splits sum.splits prod.splits)
    from readFromCache_miss(2)[OF miss_unchanged[OF miss]]
    have nc: "getInstance s i k \<noteq> Constructing" .
    have out: "j \<noteq> i \<or> kid x \<noteq> kid k" if "(j, kid x) \<in> set st" for j and x :: key
    proof -
      from that Cons.prems(2) have "getInstance s j x = Constructing" by blast
      with nc show ?thesis using getInstance_kid[of x k s i] by auto
    qed
    have inv0: "getInstance ?s0 j x = Constructing" if "(j, kid x) \<in> set ((i, kid k) # st)" for j and x :: key
    proof (cases "j = i \<and> kid x = kid k")
      case True
      then show ?thesis by (simp add: markAsConstructing_def getInstance_setInstance)
    next
      case False
      with that Cons.prems(2) show ?thesis
        by (auto simp: markAsConstructing_def getInstance_setInstance)
    qed
    have inv1: "\<forall>j x. (j, kid x) \<in> set ((i, kid k) # st) \<longrightarrow> getInstance s1 j x = Constructing"
      using getDependencies_constructing[OF pre inv0] by blast
    from Cons.IH[OF c inv1] obtain s2 where
      g: "getByKey (Suc n') i (dkey (dependencies b ! m)) (rf \<or> asFuture (dependencies b ! m))
            False s1 = Some (Inl (CyclicDependencyError (rev (map snd fs0))), s2)"
      and k2: "\<forall>j x. (j, kid x) \<in> set ((i, kid k) # st) \<longrightarrow> getInstance s2 j x = Constructing"
      and e2: "\<forall>j x. (j, x) \<in> set fs0 \<longrightarrow> (j, kid x) \<notin> set ((i, kid k) # st)
                 \<longrightarrow> getInstance s2 j x = Value Null"
      and b2: "\<forall>j. bindings (injectors s2 j) = bindings (injectors s1 j)"
      by blast
    let ?s' = "clear i k s2"
    from dependency_error_step[OF miss b p m nl pre g] n fs
    have 1: "getByKey (Suc n) i k rf False s
               = Some (Inl (CyclicDependencyError (rev (map snd fs))), ?s')"
      by simp
    have 2: "getInstance ?s' j x = Constructing" if "(j, kid x) \<in> set st" for j and x :: key
      using out[OF that] k2 that by (auto simp: clear_def getInstance_setInstance)
    have 3: "getInstance ?s' j x = Value Null" if "(j, x) \<in> set fs" and "(j, kid x) \<notin> set st" for j and x :: key
    proof (cases "j = i \<and> kid x = kid k")
      case True
      then show ?thesis by (simp add: clear_def getInstance_setInstance)
    next
      case False
      with that fs have "(j, x) \<in> set fs0" and "(j, kid x) \<notin> set ((i, kid k) # st)" by auto
      with e2 have "getInstance s2 j x = Value Null" by blast
      with False show ?thesis by (auto simp: clear_def getInstance_setInstance)
    qed
    have 4: "bindings (injectors ?s' j) = bindings (injectors s j)" for j
    proof -
      have "bindings (injectors ?s' j) = bindings (injectors s2 j)"
        by (simp add: clear_def setInstance_def)
      also from b2 have "\<dots> = bindings (injectors s1 j)" by simp
      also from getDependencies_bindings[OF pre] have "\<dots> = bindings (injectors ?s0 j)" .
      also have "\<dots> = bindings (injectors s j)"
        by (simp add: markAsConstructing_def setInstance_def)
      finally show ?thesis .
    qed
    from 1 2 3 4 show ?thesis by blast
  qed
qed

text \<open>
  Claim C2, amended. Let the lookup of \<open>k\<close> on injector \<open>i\<close> (by \<open>get\<close>, or by
  \<open>asyncGet\<close>) lead along a chain of hops back to a slot that one of these hops has
  marked: each hop goes to a dependency of the local binding that is not lazy (at any
  position of the list, asked as a future or not), the dependencies listed before it
  resolving without error, or to the parent for a key that is not bound locally; every
  lookup on the way misses the cache, and a binding reached by a synchronous lookup is
  synchronous. Then the lookup returns (the depth bound of the chain is enough) and raises
  \<open>CyclicDependencyError\<close>, annotated with the keys of the chain from the last lookup
  back to \<open>k\<close>; afterwards the slot of every lookup of the chain is empty and the binding
  tables are as before, so that a later lookup starts again from the binding table.
\<close>

theorem cyclic_dependency_detected:
  assumes "cycle_chain n [] i k rf s hs = Some fs"
  shows "\<exists>s'. (if rf then asyncGet (Suc n) i k s else get (Suc n) i k s)
                 = Some (Inl (CyclicDependencyError (rev (map snd fs))), s')
      \<and> (\<forall>(j, x) \<in> set fs. getInstance s' j x = Value Null)
      \<and> (\<forall>j x. getBinding s' j x = getBinding s j x)"
proof -
  from cycle_chain_closes[OF assms] obtain s' where
    "getByKey (Suc n) i k rf False s = Some (Inl (CyclicDependencyError (rev (map snd fs))), s')"
    and "\<forall>j x. (j, x) \<in> set fs \<longrightarrow> getInstance s' j x = Value Null"
    and "\<forall>j. bindings (injectors s' j) = bindings (injectors s j)"
    by auto
  then show ?thesis by (auto simp: getBinding_def get_def asyncGet_def)
qed

theorem cyclic_dependency_detected_witness:
  "cycle_chain (Suc 0) [] 0 (ex_key 1) False ex_second_cycle [ViaDependency 1]
     = Some [(0, ex_key 1), (0, ex_key 1)]
   \<and> map_option fst (get (Suc (Suc 0)) 0 (ex_key 1) ex_second_cycle)
       = Some (Inl (CyclicDependencyError [ex_key 1, ex_key 1]))
   \<and> map_option (\<lambda>(r, s'). getInstance s' 0 (ex_key 1))
         (get (Suc (Suc 0)) 0 (ex_key 1) ex_second_cycle) = Some (Value Null)
   \<and> cycle_chain (Suc (Suc 0)) [] 0 (ex_key 1) False ex_future_cycle
         [ViaDependency 0, ViaDependency 0]
     = Some [(0, ex_key 1), (0, ex_key 2), (0, ex_key 1)]
   \<and> map_option fst (get (Suc (Suc (Suc 0))) 0 (ex_key 1) ex_future_cycle)
       = Some (Inl (CyclicDependencyError [ex_key 1, ex_key 2, ex_key 1]))
   \<and> map_option (\<lambda>(r, s'). (getInstance s' 0 (ex_key 1), getInstance s' 0 (ex_key 2)))
         (get (Suc (Suc (Suc 0))) 0 (ex_key 1) ex_future_cycle) = Some (Value Null, Value Null)"
proof -
  have c1: "cycle_chain (Suc 0) [] 0 (ex_key 1) False ex_second_cycle [ViaDependency 1]
              = Some [(0, ex_key 1), (0, ex_key 1)]"
    by code_simp
  have c2: "cycle_chain (Suc (Suc 0)) [] 0 (ex_key 1) False ex_future_cycle
              [ViaDependency 0, ViaDependency 0]
              = Some [(0, ex_key 1), (0, ex_key 2), (0, ex_key 1)]"
    by code_simp
  from cyclic_dependency_detected[OF c1]
  have r1: "map_option fst (get (Suc (Suc 0)) 0 (ex_key 1) ex_second_cycle)
              = Some (Inl (CyclicDependencyError [ex_key 1, ex_key 1]))
            \<and> map_option (\<lambda>(r, s'). getInstance s' 0 (ex_key 1))
                 (get (Suc (Suc 0)) 0 (ex_key 1) ex_second_cycle) = Some (Value Null)"
    by auto
  from cyclic_dependency_detected[OF c2]
  have r2: "map_option fst (get (Suc (Suc (Suc 0))) 0 (ex_key 1) ex_future_cycle)
              = Some (Inl (CyclicDependencyError [ex_key 1, ex_key 2, ex_key 1]))
            \<and> map_option (\<lambda>(r, s'). (getInstance s' 0 (ex_key 1), getInstance s' 0 (ex_key 2)))
                 (get (Suc (Suc (Suc 0))) 0 (ex_key 1) ex_future_cycle)
               = Some (Value Null, Value Null)"
    by auto
  from c1 c2 r1 r2 show ?thesis by simp
qed

text \<open>
  Claim C2, as stated, fails. In \<open>ex_lazy_cycle\<close> the binding of key 1 depends on key 1
  itself, lazily, and \<open>get\<close> succeeds. In \<open>ex_late_cycle\<close> the binding of key 1 depends
  on the unbound key 2 and then on key 1, and \<open>get\<close> raises \<open>NoProviderError\<close>.
\<close>

theorem cyclic_dependency_counterexample:
  "map_option (map (\<lambda>d. (kid (dkey d), lazy d)) \<circ> dependencies) (getBinding ex_lazy_cycle 0 (ex_key 1))
     = Some [(1, True)]
   \<and> map_option fst (get 2 0 (ex_key 1) ex_lazy_cycle) = Some (Inr (Obj 0))
   \<and> map_option (map (kid \<circ> dkey) \<circ> dependencies) (getBinding ex_late_cycle 0 (ex_key 1))
     = Some [2, 1]
   \<and> map_option fst (get 2 0 (ex_key 1) ex_late_cycle)
     = Some (Inl (NoProviderError [ex_key 2, ex_key 1]))"
  by code_simp

subsection \<open>Failure of a dependency under the asynchronous strategy\<close>

text \<open>
  Claim C5 at \<open>ex_failing_dep\<close>: \<open>asyncGet\<close> of key 1, whose dependency key 2 has a
  factory that throws, returns a future. After the callbacks have run (\<open>ex_failed\<close>),
  both futures have failed and the
  slot of key 2 is empty, but the slot of key 1 still holds the pending marker of its
  failed future (\<open>_errorHandler\<close> does not clear it), and a further \<open>asyncGet\<close> of
  key 1 returns that failed future again.
\<close>

theorem async_dependency_failure_keeps_marker:
  "map_option fst (asyncGet 2 0 (ex_key 1) ex_failing_dep) = Some (Inr (FutureRef 1))
   \<and> report ex_failed 0 (ex_key 1) (ex_key 2)
       = ([Failed (InstantiationError ''boom'' [ex_key 2]),
           Failed (InstantiationError ''boom'' [ex_key 2, ex_key 1])],
          Waiting 1, Value Null, Some (Inr (FutureRef 1)))"
  by code_simp

end
